theory Spec2Isabelle
  imports Main "HOL-Library.Word" "HOL-Library.Monad_Syntax"
begin

unbundle bit_operations_syntax

section \<open>Memory and allocator state\<close>

text \<open>
  Both allocators (\<^verbatim>\<open>implicit.c\<close> and the explicit free-list allocator) are compiled for a
  64-bit target: \<^verbatim>\<open>size_t\<close> and pointers are 64-bit words, and arithmetic on them wraps.
  The allocators read and write memory only through \<^verbatim>\<open>*(size_t *)p\<close> and \<^verbatim>\<open>*(void **)p\<close>,
  that is, in whole 8-byte cells; memory is therefore a map from the address of a cell to
  the 64-bit word stored there.  \<^verbatim>\<open>NULL\<close> is address 0.
\<close>

type_synonym addr = "64 word"
type_synonym size_t = "64 word"
type_synonym memory = "addr \<Rightarrow> 64 word"

abbreviation NULL :: addr where
  "NULL \<equiv> 0"

text \<open>\<^verbatim>\<open>allocator.h\<close>: \<^verbatim>\<open>#define ALIGNMENT 8\<close>, \<^verbatim>\<open>#define MAX_REQUEST_SIZE (1 << 30)\<close>.\<close>

abbreviation ALIGNMENT :: size_t where
  "ALIGNMENT \<equiv> 8"

definition MAX_REQUEST_SIZE :: size_t where
  "MAX_REQUEST_SIZE = push_bit 30 1"

text \<open>
  The file-scope variables of \<^verbatim>\<open>implicit.c\<close>, together with the memory they point into.
  The explicit allocator has one more variable, \<^verbatim>\<open>free_start\<close>.
\<close>

record heap =
  segment_start :: addr
  segment_size :: size_t
  nused :: size_t
  mem :: memory

record eheap = heap +
  free_start :: addr

definition load :: "('a heap_scheme) \<Rightarrow> addr \<Rightarrow> 64 word" where
  "load h p = mem h p"

definition store :: "addr \<Rightarrow> 64 word \<Rightarrow> ('a heap_scheme) \<Rightarrow> ('a heap_scheme)" where
  "store p v h = h\<lparr>mem := (mem h)(p := v)\<rparr>"

section \<open>Header codec (identical in both source files)\<close>

definition is_used :: "('a heap_scheme) \<Rightarrow> addr \<Rightarrow> bool" where
  "is_used h ptr = (load h ptr AND 1 \<noteq> 0)"

definition get_size :: "('a heap_scheme) \<Rightarrow> addr \<Rightarrow> size_t" where
  "get_size h ptr = load h ptr AND NOT 1"

definition is_past_end :: "('a heap_scheme) \<Rightarrow> addr \<Rightarrow> bool" where
  "is_past_end h ptr = (ptr \<ge> segment_start h + segment_size h)"

definition get_header :: "addr \<Rightarrow> addr" where
  "get_header ptr = ptr - ALIGNMENT"

definition get_next_header :: "('a heap_scheme) \<Rightarrow> addr \<Rightarrow> addr" where
  "get_next_header h ptr = ptr + get_size h ptr + ALIGNMENT"

text \<open>
  \<^verbatim>\<open>memcpy(dst, src, n)\<close> on cells: every whole cell of the destination range receives the
  source cell at the same offset; when \<open>n\<close> is not a multiple of 8 the last cell receives
  only the low \<open>n mod 8\<close> bytes (little-endian) and keeps its other bytes.  Source and
  destination never overlap in the callers.
\<close>

definition memcpy :: "addr \<Rightarrow> addr \<Rightarrow> size_t \<Rightarrow> ('a heap_scheme) \<Rightarrow> ('a heap_scheme)" where
  "memcpy dst src n h =
     h\<lparr>mem := (\<lambda>a. let off = a - dst in
        if off < n \<and> off AND 7 = 0 then
          (if n - off \<ge> 8 then mem h (src + off)
           else (mem h (src + off) AND mask (8 * unat (n - off)))
                OR (mem h a AND NOT (mask (8 * unat (n - off)))))
        else mem h a)\<rparr>"

section \<open>The implicit free-list allocator (\<^verbatim>\<open>implicit.c\<close>)\<close>

definition myinit_i :: "addr \<Rightarrow> size_t \<Rightarrow> heap \<Rightarrow> bool \<times> heap" where
  "myinit_i heap_start heap_size h =
     (let h = h\<lparr>segment_start := heap_start\<rparr> in
      if heap_size < 2 * ALIGNMENT then (False, h)
      else
        let h = h\<lparr>segment_size := heap_size\<rparr>;
            h = store (segment_start h) (segment_size h - ALIGNMENT) h;
            h = h\<lparr>nused := 0\<rparr>
        in (True, h))"

definition roundup_i :: "size_t \<Rightarrow> size_t \<Rightarrow> size_t" where
  "roundup_i sz multiple = (sz + multiple - 1) AND NOT (multiple - 1)"

text \<open>
  The search loop of \<^verbatim>\<open>mymalloc\<close>.  \<open>Some None\<close> is the \<^verbatim>\<open>return NULL\<close> inside the loop,
  \<open>Some (Some cur)\<close> is the loop exit with the block found, \<open>None\<close> is a loop that never ends.
\<close>

partial_function (option) first_fit :: "size_t \<Rightarrow> addr \<Rightarrow> heap \<Rightarrow> addr option option" where
  "first_fit needed cur h =
     (if is_used h cur \<or> get_size h cur < needed then
        (let cur = get_next_header h cur in
         if is_past_end h cur then Some None else first_fit needed cur h)
      else Some (Some cur))"

definition mymalloc_i :: "size_t \<Rightarrow> heap \<Rightarrow> (addr \<times> heap) option" where
  "mymalloc_i requested_size h =
     (if requested_size = 0 \<or> requested_size > MAX_REQUEST_SIZE then Some (NULL, h)
      else
        let needed = roundup_i requested_size ALIGNMENT in
        do {
          found \<leftarrow> first_fit needed (segment_start h) h;
          case found of
            None \<Rightarrow> Some (NULL, h)
          | Some cur \<Rightarrow>
              let block_size = get_size h cur;
                  needed = (if block_size < needed + 2 * ALIGNMENT then block_size else needed);
                  h = store cur needed h;
                  h = store cur (load h cur OR 1) h;
                  h = h\<lparr>nused := nused h + needed\<rparr>;
                  ptr = cur + ALIGNMENT;
                  h = (if block_size > needed then
                         (let cur = get_next_header h cur
                          in store cur (block_size - needed - ALIGNMENT) h)
                       else h)
              in Some (ptr, h)
        })"

definition myfree_i :: "addr \<Rightarrow> heap \<Rightarrow> heap" where
  "myfree_i ptr h =
     (if ptr \<noteq> NULL then
        (let header = get_header ptr;
             h = h\<lparr>nused := nused h - get_size h header\<rparr>;
             h = store header (load h header AND NOT 1) h
         in h)
      else h)"

definition myrealloc_i :: "addr \<Rightarrow> size_t \<Rightarrow> heap \<Rightarrow> (addr \<times> heap) option" where
  "myrealloc_i old_ptr new_size h =
     do {
       (new_ptr, h) \<leftarrow> mymalloc_i new_size h;
       if old_ptr = NULL then Some (new_ptr, h)
       else if new_size = 0 then Some (new_ptr, myfree_i old_ptr h)
       else
         let old_header = get_header old_ptr;
             old_size = get_size h old_header
         in if new_ptr = NULL then Some (NULL, h)
            else
              let old_size = (if new_size < old_size then new_size else old_size);
                  h = memcpy new_ptr old_ptr old_size h;
                  h = myfree_i old_ptr h
              in Some (new_ptr, h)
     }"

text \<open>
  The segment walk of \<^verbatim>\<open>validate_heap\<close> (and, without the sum, of \<^verbatim>\<open>dump_heap\<close>): the same
  loop in both source files.
\<close>

partial_function (option) heap_walk :: "size_t \<Rightarrow> addr \<Rightarrow> ('a heap_scheme) \<Rightarrow> size_t option" where
  "heap_walk total_size cur h =
     (if \<not> is_past_end h cur then
        heap_walk (total_size + (get_size h cur + ALIGNMENT)) (get_next_header h cur) h
      else Some total_size)"

definition validate_heap_i :: "heap \<Rightarrow> bool option" where
  "validate_heap_i h =
     do {
       total_size \<leftarrow> heap_walk 0 (segment_start h) h;
       if total_size \<noteq> segment_size h then Some False else Some True
     }"

text \<open>\<^verbatim>\<open>dump_heap\<close> prints one line per block: address, used flag, size.\<close>

partial_function (option) dump_walk ::
  "(addr \<times> bool \<times> size_t) list \<Rightarrow> addr \<Rightarrow> ('a heap_scheme) \<Rightarrow> (addr \<times> bool \<times> size_t) list option" where
  "dump_walk printed cur h =
     (if \<not> is_past_end h cur then
        dump_walk (printed @ [(cur, is_used h cur, get_size h cur)]) (get_next_header h cur) h
      else Some printed)"

definition dump_heap :: "('a heap_scheme) \<Rightarrow> (addr \<times> bool \<times> size_t) list option" where
  "dump_heap h = dump_walk [] (segment_start h) h"

section \<open>The explicit free-list allocator\<close>

text \<open>
  The free list is threaded through the free blocks: the cell after the header holds the
  previous free block's header address, the cell after that the next one's.
\<close>

definition get_next_free :: "addr \<Rightarrow> addr" where
  "get_next_free ptr = ptr + 2 * ALIGNMENT"

definition get_prev_free :: "addr \<Rightarrow> addr" where
  "get_prev_free ptr = ptr + ALIGNMENT"

definition myinit_e :: "addr \<Rightarrow> size_t \<Rightarrow> eheap \<Rightarrow> bool \<times> eheap" where
  "myinit_e heap_start heap_size h =
     (let h = h\<lparr>segment_start := heap_start\<rparr> in
      if heap_size < 3 * ALIGNMENT then (False, h)
      else
        let h = h\<lparr>segment_size := heap_size\<rparr>;
            h = store (segment_start h) (segment_size h - ALIGNMENT) h;
            h = h\<lparr>free_start := segment_start h\<rparr>;
            h = store (get_prev_free (free_start h)) NULL h;
            h = store (get_next_free (free_start h)) NULL h;
            h = h\<lparr>nused := 0\<rparr>
        in (True, h))"

definition roundup_e :: "size_t \<Rightarrow> size_t \<Rightarrow> size_t" where
  "roundup_e sz multiple =
     (let rounded = (sz + multiple - 1) AND NOT (multiple - 1) in
      if rounded < 2 * ALIGNMENT then 2 * ALIGNMENT else rounded)"

definition remove_free :: "addr \<Rightarrow> eheap \<Rightarrow> eheap" where
  "remove_free ptr h =
     (let prev = load h (get_prev_free ptr);
          next = load h (get_next_free ptr);
          h = (if prev \<noteq> NULL then store (get_next_free prev) next h
               else h\<lparr>free_start := next\<rparr>);
          h = (if next \<noteq> NULL then store (get_prev_free next) prev h else h)
      in h)"

definition add_free :: "addr \<Rightarrow> eheap \<Rightarrow> eheap" where
  "add_free ptr h =
     (let h = store (get_prev_free ptr) NULL h;
          h = store (get_next_free ptr) (free_start h) h;
          h = (if free_start h \<noteq> NULL then store (get_prev_free (free_start h)) ptr h else h)
      in h\<lparr>free_start := ptr\<rparr>)"

definition set_used :: "addr \<Rightarrow> eheap \<Rightarrow> eheap" where
  "set_used ptr h = store ptr (load h ptr OR 1) h"

definition set_free :: "addr \<Rightarrow> eheap \<Rightarrow> eheap" where
  "set_free ptr h = store ptr (load h ptr AND NOT 1) h"

text \<open>The search loop of \<^verbatim>\<open>mymalloc\<close> along the free list; it ends with \<open>cur\<close>, possibly \<^verbatim>\<open>NULL\<close>.\<close>

partial_function (option) find_fit :: "size_t \<Rightarrow> addr \<Rightarrow> eheap \<Rightarrow> addr option" where
  "find_fit needed cur h =
     (if cur \<noteq> NULL \<and> get_size h cur < needed then
        find_fit needed (load h (get_next_free cur)) h
      else Some cur)"

definition mymalloc_e :: "size_t \<Rightarrow> eheap \<Rightarrow> (addr \<times> eheap) option" where
  "mymalloc_e requested_size h =
     (if requested_size = 0 \<or> requested_size > MAX_REQUEST_SIZE then Some (NULL, h)
      else
        let needed = roundup_e requested_size ALIGNMENT in
        do {
          cur \<leftarrow> find_fit needed (free_start h) h;
          if cur = NULL then Some (NULL, h)
          else
            let block_size = get_size h cur;
                needed = (if block_size < needed + 3 * ALIGNMENT then block_size else needed);
                h = store cur needed h;
                h = set_used cur h;
                h = h\<lparr>nused := nused h + needed\<rparr>;
                h = remove_free cur h;
                ptr = cur + ALIGNMENT;
                h = (if block_size \<ge> needed + 3 * ALIGNMENT then
                       (let cur = get_next_header h cur;
                            h = store cur (block_size - needed - ALIGNMENT) h
                        in add_free cur h)
                     else h)
            in Some (ptr, h)
        })"

text \<open>The coalescing loop of \<^verbatim>\<open>myfree\<close>.\<close>

partial_function (option) coalesce :: "addr \<Rightarrow> addr \<Rightarrow> eheap \<Rightarrow> eheap option" where
  "coalesce header neighbor h =
     (if \<not> is_past_end h neighbor \<and> \<not> is_used h neighbor then
        (let h = remove_free neighbor h;
             h = store header (load h header + (get_size h neighbor + ALIGNMENT)) h
         in coalesce header (get_next_header h neighbor) h)
      else Some h)"

definition myfree_e :: "addr \<Rightarrow> eheap \<Rightarrow> eheap option" where
  "myfree_e ptr h =
     (if ptr \<noteq> NULL then
        (let header = get_header ptr;
             h = h\<lparr>nused := nused h - get_size h header\<rparr>;
             h = set_free header h;
             h = add_free header h;
             neighbor = get_next_header h header
         in coalesce header neighbor h)
      else Some h)"

text \<open>
  The absorbing loop of \<^verbatim>\<open>myrealloc\<close>.  \<open>Some (True, h)\<close> is the exit through the recursive
  call (the block has grown to \<open>new_size\<close>), \<open>Some (False, h)\<close> the exit at the loop condition.
\<close>

partial_function (option) absorb :: "size_t \<Rightarrow> addr \<Rightarrow> addr \<Rightarrow> eheap \<Rightarrow> (bool \<times> eheap) option" where
  "absorb new_size old_header neighbor h =
     (if \<not> is_past_end h neighbor \<and> \<not> is_used h neighbor then
        (let h = remove_free neighbor h;
             h = store old_header (load h old_header + (get_size h neighbor + ALIGNMENT)) h
         in if get_size h old_header \<ge> new_size then Some (True, h)
            else absorb new_size old_header (get_next_header h neighbor) h)
      else Some (False, h))"

partial_function (option) myrealloc_e :: "addr \<Rightarrow> size_t \<Rightarrow> eheap \<Rightarrow> (addr \<times> eheap) option" where
  "myrealloc_e old_ptr new_size h =
     (if old_ptr = NULL then mymalloc_e new_size h
      else if new_size = 0 then
        do { h \<leftarrow> myfree_e old_ptr h; Some (NULL, h) }
      else
        let old_header = get_header old_ptr;
            old_size = get_size h old_header;
            new_size = roundup_e new_size ALIGNMENT;
            h = h\<lparr>nused := nused h - old_size\<rparr>
        in
          if new_size \<le> old_size then
            (let h = (if old_size \<ge> new_size + 3 * ALIGNMENT then
                        (let h = store old_header new_size h;
                             h = set_used old_header h;
                             new_free = get_next_header h old_header;
                             h = store new_free (old_size - new_size - ALIGNMENT) h
                         in add_free new_free h)
                      else h);
                 h = h\<lparr>nused := nused h + get_size h old_header\<rparr>
             in Some (old_ptr, h))
          else
            do {
              (grown, h) \<leftarrow> absorb new_size old_header (get_next_header h old_header) h;
              if grown then myrealloc_e old_ptr new_size h
              else
                do {
                  (new_ptr, h) \<leftarrow> mymalloc_e new_size h;
                  if new_ptr = NULL then Some (NULL, h)
                  else
                    (let h = memcpy new_ptr old_ptr old_size h;
                         h = h\<lparr>nused := nused h + get_size h old_header\<rparr>
                     in do { h \<leftarrow> myfree_e old_ptr h; Some (new_ptr, h) })
                }
            })"

text \<open>
  \<^verbatim>\<open>validate_heap\<close>: after the segment walk, the walk along the free list (\<open>Some False\<close> when
  a listed block is used), then for every free block of the segment the search for it in
  the free list.
\<close>

partial_function (option) list_all_free :: "addr \<Rightarrow> eheap \<Rightarrow> bool option" where
  "list_all_free cur h =
     (if cur \<noteq> NULL then
        (if is_used h cur then Some False
         else list_all_free (load h (get_next_free cur)) h)
      else Some True)"

partial_function (option) find_in_list :: "addr \<Rightarrow> addr \<Rightarrow> eheap \<Rightarrow> addr option" where
  "find_in_list cur temp h =
     (if temp \<noteq> NULL then
        (if temp = cur then Some temp
         else find_in_list cur (load h (get_next_free temp)) h)
      else Some temp)"

partial_function (option) all_free_listed :: "addr \<Rightarrow> eheap \<Rightarrow> bool option" where
  "all_free_listed cur h =
     (if \<not> is_past_end h cur then
        (if \<not> is_used h cur then
           do {
             temp \<leftarrow> find_in_list cur (free_start h) h;
             if temp = NULL then Some False
             else all_free_listed (get_next_header h cur) h
           }
         else all_free_listed (get_next_header h cur) h)
      else Some True)"

definition validate_heap_e :: "eheap \<Rightarrow> bool option" where
  "validate_heap_e h =
     do {
       total_size \<leftarrow> heap_walk 0 (segment_start h) h;
       if total_size \<noteq> segment_size h then Some False
       else
         let cur = free_start h in
         if cur \<noteq> NULL \<and> load h (get_prev_free cur) \<noteq> NULL then Some False
         else
           do {
             ok \<leftarrow> list_all_free cur h;
             if \<not> ok then Some False
             else all_free_listed (segment_start h) h
           }
     }"

section \<open>Facts about 64-bit words\<close>

lemma unat_lt64: "unat (a :: 64 word) < 18446744073709551616"
  using unsigned_less [of a] by simp

lemma unat_plus: "unat (a::64 word) + unat b < 18446744073709551616 \<Longrightarrow> unat (a + b) = unat a + unat b"
  using unat_add_lem [of a b] by simp

lemma unat_minus: "unat (b::64 word) \<le> unat a \<Longrightarrow> unat (a - b) = unat a - unat b"
  by (simp add: unat_sub word_le_nat_alt)

lemma and_not_mask_push_drop: "(w::64 word) AND NOT (mask n) = push_bit n (drop_bit n w)"
  by (rule bit_eqI) (auto simp add: bit_simps)

lemma unat_and_not_mask: "unat ((w::64 word) AND NOT (mask n)) = 2 ^ n * (unat w div 2 ^ n)"
proof -
  have le: "2 ^ n * (unat w div 2 ^ n) \<le> unat w"
    by simp
  have w: "unat w < 2 ^ 64"
    using unsigned_less [of w] by simp
  with le have lt: "2 ^ n * (unat w div 2 ^ n) < 2 ^ 64"
    by (rule le_less_trans)
  have tb: "take_bit 64 (unat w) = unat w"
    using w by (simp add: take_bit_nat_eq_self_iff)
  have "unat (push_bit n (drop_bit n w)) = take_bit 64 (push_bit n (drop_bit n (unat w)))"
    by (simp add: unsigned_push_bit_eq unsigned_drop_bit_eq tb)
  also have "\<dots> = 2 ^ n * (unat w div 2 ^ n)"
    using lt by (simp add: take_bit_nat_eq_self_iff push_bit_eq_mult drop_bit_eq_div mult.commute)
  finally show ?thesis
    by (simp add: and_not_mask_push_drop)
qed

lemma unat_and_not_1: "unat ((w::64 word) AND NOT 1) = 2 * (unat w div 2)"
  using unat_and_not_mask [of w 1] by (simp del: not_one_eq)

lemma unat_and_not_7: "unat ((w::64 word) AND NOT 7) = 8 * (unat w div 8)"
  using unat_and_not_mask [of w 3] by (simp add: mask_eq_exp_minus_1)

text \<open>The simplifier writes \<open>NOT 1\<close> as \<open>- 2\<close> and \<open>NOT 7\<close> as \<open>- 8\<close>.\<close>

lemma unat_and_m2: "unat ((w::64 word) AND - 2) = 2 * (unat w div 2)"
  using unat_and_not_1 [of w] by simp

lemma unat_and_m8: "unat ((w::64 word) AND - 8) = 8 * (unat w div 8)"
  using unat_and_not_7 [of w] by simp

lemma even_unat: "even (unat (w::64 word)) = even w"
  by (metis even_of_nat mult.right_neutral unsigned_1 word_arith_nat_mult)

lemma and_1_neq_0: "((w::64 word) AND 1 \<noteq> 0) = odd (unat w)"
proof (cases "even w")
  case True
  then have "w mod 2 = 0" by (simp add: even_iff_mod_2_eq_zero)
  with True show ?thesis by (simp add: and_one_eq even_unat)
next
  case False
  then have "w mod 2 = 1" by (simp add: odd_iff_mod_2_eq_one)
  with False show ?thesis by (simp add: and_one_eq even_unat)
qed

lemma or_1_plus: "even (unat (w::64 word)) \<Longrightarrow> w OR 1 = w + 1"
  using and_1_neq_0 [of w] by (simp add: disjunctive_add_eq_or)

lemma unat_or_1: "even (unat (w::64 word)) \<Longrightarrow> unat (w OR 1) = unat w + 1"
proof -
  assume e: "even (unat w)"
  have "unat w \<noteq> 18446744073709551615"
    using e by auto
  then have "unat w + unat (1::64 word) < 18446744073709551616"
    using unat_lt64 [of w] by simp
  then show ?thesis
    using e by (simp add: or_1_plus unat_plus)
qed

lemma word_of_unat_eq: "unat (a::64 word) = unat b \<Longrightarrow> a = b"
  by (simp add: word_eq_iff_unsigned [where ?'a = nat])


section \<open>Blocks tiling the segment\<close>

definition bsize :: "memory \<Rightarrow> addr \<Rightarrow> nat" where
  "bsize m b = unat (m b AND NOT 1)"

definition bused :: "memory \<Rightarrow> addr \<Rightarrow> bool" where
  "bused m b = (m b AND 1 \<noteq> 0)"

fun tiles :: "memory \<Rightarrow> addr list \<Rightarrow> nat \<Rightarrow> nat \<Rightarrow> bool" where
  "tiles m [] a e = (a = e)"
| "tiles m (b # bs) a e = (unat b = a \<and> tiles m bs (a + 8 + bsize m b) e)"

lemma tiles_le: "tiles m bs a e \<Longrightarrow> a \<le> e"
proof (induction bs arbitrary: a)
  case Nil
  then show ?case by simp
next
  case (Cons b bs)
  from Cons.prems have "tiles m bs (a + 8 + bsize m b) e" by simp
  from Cons.IH [OF this] show ?case by simp
qed

lemma tiles_bounds:
  "tiles m bs a e \<Longrightarrow> b \<in> set bs \<Longrightarrow> a \<le> unat b \<and> unat b + 8 + bsize m b \<le> e"
proof (induction bs arbitrary: a)
  case Nil
  then show ?case by simp
next
  case (Cons c bs)
  from Cons.prems have t: "tiles m bs (a + 8 + bsize m c) e" and c: "unat c = a"
    by simp_all
  show ?case
  proof (cases "b = c")
    case True
    with c tiles_le [OF t] show ?thesis by simp
  next
    case False
    with Cons.prems have "b \<in> set bs" by simp
    from Cons.IH [OF t this] show ?thesis by simp
  qed
qed

lemma tiles_append:
  "tiles m (xs @ ys) a e = (\<exists>c. tiles m xs a c \<and> tiles m ys c e)"
  by (induction xs arbitrary: a) auto

lemma tiles_cong:
  "(\<And>b. b \<in> set bs \<Longrightarrow> bsize m' b = bsize m b) \<Longrightarrow> tiles m' bs a e = tiles m bs a e"
  by (induction bs arbitrary: a) auto

lemma tiles_end_unique: "tiles m bs a e \<Longrightarrow> tiles m bs a e' \<Longrightarrow> e = e'"
  by (induction bs arbitrary: a) auto

lemma tiles_notin:
  "tiles m bs a e \<Longrightarrow> unat c < a \<or> e \<le> unat c \<Longrightarrow> c \<notin> set bs"
  using tiles_bounds [of m bs a e c] by auto

lemma tiles_distinct: "tiles m bs a e \<Longrightarrow> distinct bs"
proof (induction bs arbitrary: a)
  case Nil
  then show ?case by simp
next
  case (Cons b bs)
  from Cons.prems have t: "tiles m bs (a + 8 + bsize m b) e" and b: "unat b = a"
    by simp_all
  have "b \<notin> set bs"
    using tiles_notin [OF t, of b] b by simp
  with Cons.IH [OF t] show ?case by simp
qed

text \<open>The header codec read through \<open>bsize\<close> and \<open>bused\<close>.\<close>

lemma unat_get_size: "unat (get_size h b) = bsize (mem h) b"
  by (simp add: get_size_def load_def bsize_def)

lemma is_used_bused: "is_used h b = bused (mem h) b"
  by (simp add: is_used_def load_def bused_def)

lemma bsize_even: "even (bsize m b)"
  by (simp add: bsize_def unat_and_m2)

lemma bsize_of_even: "even (unat w) \<Longrightarrow> m b = w \<Longrightarrow> bsize m b = unat w"
  by (auto simp add: bsize_def unat_and_m2)

lemma bused_of_even: "even (unat w) \<Longrightarrow> m b = w \<Longrightarrow> \<not> bused m b"
  by (simp add: bused_def and_1_neq_0)

lemma bsize_or_1: "even (unat w) \<Longrightarrow> m b = w OR 1 \<Longrightarrow> bsize m b = unat w"
  by (auto simp add: bsize_def unat_and_m2 unat_or_1)

lemma bused_or_1: "even (unat w) \<Longrightarrow> m b = w OR 1 \<Longrightarrow> bused m b"
  by (simp add: bused_def and_1_neq_0 unat_or_1)

lemma bsize_and_not_1: "m' b = m b AND NOT 1 \<Longrightarrow> bsize m' b = bsize m b"
  by (simp add: bsize_def and.assoc)

lemma bused_and_not_1: "m' b = m b AND NOT 1 \<Longrightarrow> \<not> bused m' b"
  by (simp add: bused_def and_1_neq_0 unat_and_m2)


section \<open>Walking the headers of a tiled segment\<close>

abbreviation seg_end :: "('a heap_scheme) \<Rightarrow> nat" where
  "seg_end h \<equiv> unat (segment_start h) + unat (segment_size h)"

lemma is_past_end_unat:
  "seg_end h < 18446744073709551616 \<Longrightarrow> is_past_end h p = (seg_end h \<le> unat p)"
  by (simp add: is_past_end_def word_le_nat_alt unat_plus)

lemma unat_next_header:
  assumes "unat b + 8 + bsize (mem h) b < 18446744073709551616"
  shows "unat (get_next_header h b) = unat b + 8 + bsize (mem h) b"
proof -
  have 1: "unat (b + get_size h b) = unat b + bsize (mem h) b"
    using assms by (simp add: unat_plus unat_get_size)
  have "unat (b + get_size h b + 8) = unat (b + get_size h b) + unat (8::64 word)"
    using assms 1 by (intro unat_plus) simp
  with 1 show ?thesis
    by (simp add: get_next_header_def)
qed

lemma tiles_next_header:
  assumes "tiles (mem h) (b # bs) a e" and "e < 18446744073709551616"
  shows "unat (get_next_header h b) = unat b + 8 + bsize (mem h) b"
    and "tiles (mem h) bs (unat (get_next_header h b)) e"
proof -
  from assms(1) have b: "unat b = a" and t: "tiles (mem h) bs (a + 8 + bsize (mem h) b) e"
    by simp_all
  from tiles_le [OF t] assms(2) b have "unat b + 8 + bsize (mem h) b < 18446744073709551616"
    by simp
  then show n: "unat (get_next_header h b) = unat b + 8 + bsize (mem h) b"
    by (rule unat_next_header)
  from t b n show "tiles (mem h) bs (unat (get_next_header h b)) e"
    by simp
qed

lemma heap_walk_tiles:
  assumes "tiles (mem h) bs (unat c) (seg_end h)" and "seg_end h < 18446744073709551616"
  shows "heap_walk t c h = Some (t + of_nat (seg_end h - unat c))"
  using assms(1)
proof (induction bs arbitrary: c t)
  case Nil
  then have "is_past_end h c"
    using assms(2) by (simp add: is_past_end_unat)
  with Nil show ?case
    by (subst heap_walk.simps) simp
next
  case (Cons b bs)
  from Cons.prems have bc: "b = c"
    by (simp add: word_of_unat_eq)
  note nh = tiles_next_header [OF Cons.prems [unfolded bc] assms(2)]
  have lt: "unat c + 8 + bsize (mem h) c \<le> seg_end h"
    using tiles_le [OF nh(2)] nh(1) by simp
  then have npe: "\<not> is_past_end h c"
    using assms(2) by (simp add: is_past_end_unat)
  have "seg_end h - unat c = bsize (mem h) c + 8 + (seg_end h - unat (get_next_header h c))"
    using lt nh(1) by simp
  then have "(of_nat (seg_end h - unat c) :: 64 word)
      = get_size h c + 8 + of_nat (seg_end h - unat (get_next_header h c))"
    by (simp add: unat_get_size [symmetric])
  with Cons.IH [OF nh(2), of "t + (get_size h c + 8)"] npe show ?case
    by (subst heap_walk.simps) (simp add: add.assoc)
qed

lemma dump_walk_tiles:
  assumes "tiles (mem h) bs (unat c) (seg_end h)" and "seg_end h < 18446744073709551616"
  shows "dump_walk printed c h = Some (printed @ map (\<lambda>b. (b, is_used h b, get_size h b)) bs)"
  using assms(1)
proof (induction bs arbitrary: c printed)
  case Nil
  then have "is_past_end h c"
    using assms(2) by (simp add: is_past_end_unat)
  with Nil show ?case
    by (subst dump_walk.simps) simp
next
  case (Cons b bs)
  from Cons.prems have bc: "b = c"
    by (simp add: word_of_unat_eq)
  note nh = tiles_next_header [OF Cons.prems [unfolded bc] assms(2)]
  have lt: "unat c + 8 + bsize (mem h) c \<le> seg_end h"
    using tiles_le [OF nh(2)] nh(1) by simp
  then have npe: "\<not> is_past_end h c"
    using assms(2) by (simp add: is_past_end_unat)
  from Cons.IH [OF nh(2), of "printed @ [(c, is_used h c, get_size h c)]"] npe bc show ?case
    by (subst dump_walk.simps) simp
qed

lemma first_fit_tiles:
  assumes "tiles (mem h) bs (unat c) (seg_end h)" and "seg_end h < 18446744073709551616"
    and "bs \<noteq> []"
  shows "first_fit needed c h = Some None \<or>
         (\<exists>b \<in> set bs. first_fit needed c h = Some (Some b) \<and> \<not> is_used h b \<and> needed \<le> get_size h b)"
  using assms(1,3)
proof (induction bs arbitrary: c)
  case Nil
  then show ?case by simp
next
  case (Cons b bs)
  from Cons.prems have bc: "b = c"
    by (simp add: word_of_unat_eq)
  note nh = tiles_next_header [OF Cons.prems(1) [unfolded bc] assms(2)]
  show ?case
  proof (cases "is_used h c \<or> get_size h c < needed")
    case False
    then have "first_fit needed c h = Some (Some c)"
      by (subst first_fit.simps) simp
    with False bc show ?thesis by auto
  next
    case True
    show ?thesis
    proof (cases bs)
      case Nil
      with nh(2) have "is_past_end h (get_next_header h c)"
        using assms(2) by (simp add: is_past_end_unat)
      with True have "first_fit needed c h = Some None"
        by (subst first_fit.simps) simp
      then show ?thesis by simp
    next
      case (Cons b' bs')
      with nh(2) have "unat (get_next_header h c) < seg_end h"
        using tiles_bounds [of "mem h" bs "unat (get_next_header h c)" "seg_end h" b'] by simp
      then have "\<not> is_past_end h (get_next_header h c)"
        using assms(2) by (simp add: is_past_end_unat)
      with True have "first_fit needed c h = first_fit needed (get_next_header h c) h"
        by (subst first_fit.simps) simp
      with Cons.IH [OF nh(2)] Cons show ?thesis by auto
    qed
  qed
qed


section \<open>Well-formed block lists\<close>

definition wf_blocks :: "nat \<Rightarrow> ('a heap_scheme) \<Rightarrow> addr list \<Rightarrow> bool" where
  "wf_blocks k h bs \<longleftrightarrow>
     seg_end h < 18446744073709551616 \<and> bs \<noteq> [] \<and>
     tiles (mem h) bs (unat (segment_start h)) (seg_end h) \<and>
     (\<forall>b \<in> set bs. 8 dvd bsize (mem h) b \<and> k \<le> bsize (mem h) b)"

definition live_of :: "memory \<Rightarrow> addr set \<Rightarrow> addr set" where
  "live_of m B = {b + 8 |b. b \<in> B \<and> bused m b}"

lemma store_simps [simp]:
  "mem (store p v h) = (mem h)(p := v)"
  "segment_start (store p v h) = segment_start h"
  "segment_size (store p v h) = segment_size h"
  "nused (store p v h) = nused h"
  by (simp_all add: store_def)

lemma load_simp [simp]: "load h p = mem h p"
  by (simp add: load_def)

lemma tiles_inside:
  "tiles m bs a e \<Longrightarrow> c \<in> set bs \<Longrightarrow> x \<in> set bs \<Longrightarrow>
   unat x \<le> unat c \<or> unat c + 8 + bsize m c \<le> unat x"
proof (induction bs arbitrary: a)
  case Nil
  then show ?case by simp
next
  case (Cons b bs)
  from Cons.prems have t: "tiles m bs (a + 8 + bsize m b) e" and b: "unat b = a"
    by simp_all
  show ?case
  proof (cases "c = b")
    case True
    show ?thesis
    proof (cases "x = b")
      case True
      with \<open>c = b\<close> show ?thesis by simp
    next
      case False
      with Cons.prems have "x \<in> set bs" by simp
      from tiles_bounds [OF t this] b True show ?thesis by simp
    qed
  next
    case False
    with Cons.prems have c: "c \<in> set bs" by simp
    show ?thesis
    proof (cases "x = b")
      case True
      with tiles_bounds [OF t c] b show ?thesis by simp
    next
      case False
      with Cons.prems have "x \<in> set bs" by simp
      from Cons.IH [OF t c this] show ?thesis .
    qed
  qed
qed

text \<open>A block list stays well-formed when no header changes its size.\<close>

lemma wf_blocks_same:
  assumes "wf_blocks k h bs"
    and "segment_start h' = segment_start h" and "segment_size h' = segment_size h"
    and "\<And>b. b \<in> set bs \<Longrightarrow> bsize (mem h') b = bsize (mem h) b"
  shows "wf_blocks k h' bs"
  using assms tiles_cong [of bs "mem h'" "mem h"] by (simp add: wf_blocks_def)

text \<open>Splitting block \<open>c\<close> into \<open>c\<close> (size \<open>n\<close>) and a new block \<open>c'\<close> behind it.\<close>

lemma wf_blocks_split:
  assumes wf: "wf_blocks k h bs" and c: "c \<in> set bs"
    and seg: "segment_start h' = segment_start h" "segment_size h' = segment_size h"
    and same: "\<And>b. b \<in> set bs \<Longrightarrow> b \<noteq> c \<Longrightarrow> bsize (mem h') b = bsize (mem h) b"
    and n: "bsize (mem h') c = n" "8 dvd n" "k \<le> n"
    and c': "unat c' = unat c + 8 + n"
    and r: "bsize (mem h') c' + n + 8 = bsize (mem h) c" "k \<le> bsize (mem h') c'"
  shows "\<exists>bs'. wf_blocks k h' bs' \<and> set bs' = insert c' (set bs)"
proof -
  from wf have t: "tiles (mem h) bs (unat (segment_start h)) (seg_end h)"
    and e: "seg_end h < 18446744073709551616"
    and sz: "\<And>b. b \<in> set bs \<Longrightarrow> 8 dvd bsize (mem h) b \<and> k \<le> bsize (mem h) b"
    by (simp_all add: wf_blocks_def)
  from c obtain xs ys where bs: "bs = xs @ c # ys"
    by (auto dest: split_list)
  from t obtain a where xs: "tiles (mem h) xs (unat (segment_start h)) a"
    and cys: "tiles (mem h) (c # ys) a (seg_end h)"
    by (auto simp add: bs tiles_append)
  from cys have a: "unat c = a" and ys: "tiles (mem h) ys (a + 8 + bsize (mem h) c) (seg_end h)"
    by simp_all
  have d: "distinct bs"
    using t by (rule tiles_distinct)
  have c'_notin: "c' \<notin> set bs"
  proof
    assume "c' \<in> set bs"
    from tiles_inside [OF t c this] c' r(1) show False by simp
  qed
  have xs': "tiles (mem h') xs (unat (segment_start h)) a"
    using xs d same by (subst tiles_cong [of xs "mem h'" "mem h"]) (auto simp add: bs)
  have ys': "tiles (mem h') ys (a + 8 + bsize (mem h) c) (seg_end h)"
    using ys d same by (subst tiles_cong [of ys "mem h'" "mem h"]) (auto simp add: bs)
  have eq: "unat c' + 8 + bsize (mem h') c' = a + 8 + bsize (mem h) c"
    using a c' r(1) by simp
  have "tiles (mem h') ys (unat c' + 8 + bsize (mem h') c') (seg_end h)"
    unfolding eq by (rule ys')
  then have "tiles (mem h') (c # c' # ys) a (seg_end h)"
    using a n(1) c' by simp
  with xs' have "tiles (mem h') (xs @ c # c' # ys) (unat (segment_start h)) (seg_end h)"
    by (auto simp add: tiles_append)
  moreover have "\<forall>b \<in> set (xs @ c # c' # ys). 8 dvd bsize (mem h') b \<and> k \<le> bsize (mem h') b"
  proof
    fix b assume b: "b \<in> set (xs @ c # c' # ys)"
    have "8 dvd bsize (mem h') c'"
    proof -
      from sz [OF c] have "8 dvd bsize (mem h') c' + n + 8"
        using r(1) by simp
      with n(2) show ?thesis
        by (simp add: dvd_add_left_iff)
    qed
    then have c'ok: "8 dvd bsize (mem h') c' \<and> k \<le> bsize (mem h') c'"
      using r(2) by simp
    from b consider "b = c" | "b = c'" | "b \<in> set bs" "b \<noteq> c"
      by (auto simp add: bs)
    then show "8 dvd bsize (mem h') b \<and> k \<le> bsize (mem h') b"
    proof cases
      case 1
      with n show ?thesis by simp
    next
      case 2
      with c'ok show ?thesis by simp
    next
      case 3
      with same [of b] sz [of b] show ?thesis by simp
    qed
  qed
  ultimately have "wf_blocks k h' (xs @ c # c' # ys)"
    using e seg by (simp add: wf_blocks_def)
  moreover have "set (xs @ c # c' # ys) = insert c' (set bs)"
    by (auto simp add: bs)
  ultimately show ?thesis by blast
qed

lemma or_1_and_m2: "even (unat (w::64 word)) \<Longrightarrow> (w OR 1) AND - 2 = w"
  by (rule word_of_unat_eq) (auto simp add: unat_and_m2 unat_or_1)

lemma and_m2_and_m2: "((w::64 word) AND - 2) AND - 2 = w AND - 2"
  by (simp add: and.assoc)

lemma even_and_m2: "even (unat (w::64 word)) \<Longrightarrow> w AND - 2 = w"
  by (rule word_of_unat_eq) (auto simp add: unat_and_m2)

lemma unat_MAX: "unat MAX_REQUEST_SIZE = 1073741824"
  by (simp add: MAX_REQUEST_SIZE_def)

lemma roundup_i_unat:
  assumes "unat r + 7 < 18446744073709551616"
  shows "unat (roundup_i r 8) = 8 * ((unat r + 7) div 8)"
proof -
  have "unat (r + 7) = unat r + 7"
    using assms unat_plus [of r 7] by simp
  moreover have "7 + r = r + 7"
    by simp
  ultimately have "unat (7 + r) = unat r + 7"
    by (simp only:)
  then show ?thesis
    by (simp add: roundup_i_def unat_and_m8)
qed

lemma roundup_i_props:
  assumes "r \<noteq> 0" and "\<not> r > MAX_REQUEST_SIZE"
  shows "8 dvd unat (roundup_i r 8)" and "8 \<le> unat (roundup_i r 8)"
    and "unat r \<le> unat (roundup_i r 8)" and "unat (roundup_i r 8) \<le> 1073741824"
proof -
  from assms have r: "0 < unat r" "unat r \<le> 1073741824"
    by (simp_all add: word_less_nat_alt unat_MAX unat_gt_0)
  then have eq: "unat (roundup_i r 8) = 8 * ((unat r + 7) div 8)"
    by (intro roundup_i_unat) simp
  show "8 dvd unat (roundup_i r 8)" by (simp add: eq)
  from r show "8 \<le> unat (roundup_i r 8)" "unat r \<le> unat (roundup_i r 8)"
    "unat (roundup_i r 8) \<le> 1073741824"
    unfolding eq by presburger+
qed

lemma memcpy_fields [simp]:
  "segment_start (memcpy dst src n h) = segment_start h"
  "segment_size (memcpy dst src n h) = segment_size h"
  "nused (memcpy dst src n h) = nused h"
  by (simp_all add: memcpy_def)

lemma memcpy_frame:
  assumes "unat dst + unat n \<le> 18446744073709551616"
    and "unat a < unat dst \<or> unat dst + unat n \<le> unat a"
  shows "mem (memcpy dst src n h) a = mem h a"
proof -
  have "unat n \<le> unat (a - dst)"
    using assms unat_lt64 [of a] by (auto simp add: unat_sub_if_size word_size)
  then have "\<not> a - dst < n"
    by (simp add: word_less_nat_alt)
  then show ?thesis
    by (simp add: memcpy_def)
qed


section \<open>The implicit allocator keeps its blocks well-formed\<close>

lemma live_of_insert_used:
  assumes "c \<in> B" and "\<not> bused m c" and "bused m' c"
    and "\<And>b. b \<in> B \<Longrightarrow> b \<noteq> c \<Longrightarrow> bused m' b = bused m b"
  shows "live_of m' B = insert (c + 8) (live_of m B)"
  using assms by (auto simp add: live_of_def)

lemma mymalloc_i_inv:
  assumes wf: "wf_blocks 8 h bs"
  shows "\<exists>p h'. mymalloc_i r h = Some (p, h') \<and>
           segment_start h' = segment_start h \<and> segment_size h' = segment_size h \<and>
           (p = NULL \<and> h' = h \<or>
            p \<noteq> NULL \<and>
            (\<exists>bs'. wf_blocks 8 h' bs' \<and>
                   live_of (mem h') (set bs') = insert p (live_of (mem h) (set bs)) \<and>
                   p \<notin> live_of (mem h) (set bs) \<and>
                   p - 8 \<in> set bs' \<and> unat r \<le> bsize (mem h') (p - 8)))"
proof (cases "r = 0 \<or> r > MAX_REQUEST_SIZE")
  case True
  then show ?thesis
    by (auto simp add: mymalloc_i_def)
next
  case False
  then have r: "r \<noteq> 0" "\<not> r > MAX_REQUEST_SIZE"
    by simp_all
  define needed where "needed = roundup_i r 8"
  note ru = roundup_i_props [OF r, folded needed_def]
  from wf have t: "tiles (mem h) bs (unat (segment_start h)) (seg_end h)"
    and e: "seg_end h < 18446744073709551616" and ne: "bs \<noteq> []"
    and sz: "\<And>b. b \<in> set bs \<Longrightarrow> 8 dvd bsize (mem h) b \<and> 8 \<le> bsize (mem h) b"
    by (simp_all add: wf_blocks_def)
  from first_fit_tiles [OF t e ne, of needed]
  consider (none) "first_fit needed (segment_start h) h = Some None"
    | (some) c where "c \<in> set bs" "first_fit needed (segment_start h) h = Some (Some c)"
        "\<not> is_used h c" "needed \<le> get_size h c"
    by blast
  then show ?thesis
  proof cases
    case none
    with False show ?thesis
      by (simp add: mymalloc_i_def needed_def)
  next
    case some
    define S where "S = bsize (mem h) c"
    have NS: "unat needed \<le> S"
      using some(4) by (simp add: word_le_nat_alt unat_get_size S_def)
    have cfree: "\<not> bused (mem h) c"
      using some(3) by (simp add: is_used_bused)
    have bnd: "unat c + 8 + S \<le> seg_end h"
      using tiles_bounds [OF t some(1)] by (simp add: S_def)
    have Sok: "8 dvd S" "8 \<le> S"
      using sz [OF some(1)] by (simp_all add: S_def)
    have gs: "unat (get_size h c) = S"
      by (simp add: unat_get_size S_def)
    have c8: "unat (c + 8) = unat c + 8"
      using bnd e unat_plus [of c 8] by simp
    then have pnz: "c + 8 \<noteq> 0"
      by (metis add_is_0 unsigned_0 zero_neq_numeral)
    have fresh: "c + 8 \<notin> live_of (mem h) (set bs)"
      using cfree by (simp add: live_of_def)
    have n16: "unat (needed + 16) = unat needed + 16"
      using ru(4) unat_plus [of needed 16] by simp
    show ?thesis
    proof (cases "get_size h c < needed + 16")
      case True
      define h' where
        "h' = (store c (get_size h c OR 1) (store c (get_size h c) h))\<lparr>nused := nused h + get_size h c\<rparr>"
      have res: "mymalloc_i r h = Some (c + 8, h')"
        using False some(2) True
        by (simp add: mymalloc_i_def needed_def [symmetric] h'_def Let_def)
      have m': "mem h' = (mem h)(c := get_size h c OR 1)"
        by (simp add: h'_def)
      have seg: "segment_start h' = segment_start h" "segment_size h' = segment_size h"
        by (simp_all add: h'_def)
      have ev: "even (unat (get_size h c))"
        using Sok(1) gs by auto
      have size_c: "bsize (mem h') c = S"
        using bsize_or_1 [OF ev, of "mem h'" c] gs by (simp add: m')
      have used_c: "bused (mem h') c"
        using bused_or_1 [OF ev, of "mem h'" c] by (simp add: m')
      have same: "\<And>b. b \<noteq> c \<Longrightarrow> mem h' b = mem h b"
        by (simp add: m')
      have wf': "wf_blocks 8 h' bs"
        using wf seg
      proof (rule wf_blocks_same)
        fix b assume "b \<in> set bs"
        then show "bsize (mem h') b = bsize (mem h) b"
          using size_c same [of b] by (cases "b = c") (simp_all add: S_def bsize_def)
      qed
      have live: "live_of (mem h') (set bs) = insert (c + 8) (live_of (mem h) (set bs))"
        using some(1) cfree used_c
      proof (rule live_of_insert_used)
        fix b assume "b \<noteq> c"
        then show "bused (mem h') b = bused (mem h) b"
          by (simp add: bused_def same)
      qed
      have "unat r \<le> bsize (mem h') (c + 8 - 8)"
        using ru(3) NS size_c by simp
      with res seg pnz wf' live some(1) fresh show ?thesis
        by auto
    next
      case False
      note nosplit = this
      define h1 where
        "h1 = (store c (needed OR 1) (store c needed h))\<lparr>nused := nused h + needed\<rparr>"
      define c' where "c' = get_next_header h1 c"
      define h' where "h' = store c' (get_size h c - needed - 8) h1"
      have lt: "unat needed + 16 \<le> S"
        using False n16 gs by (simp add: word_less_nat_alt)
      then have gt: "needed < get_size h c"
        using gs by (simp add: word_less_nat_alt)
      have res: "mymalloc_i r h = Some (c + 8, h')"
        using \<open>\<not> (r = 0 \<or> r > MAX_REQUEST_SIZE)\<close> some(2) nosplit gt
        by (simp add: mymalloc_i_def needed_def [symmetric] h'_def h1_def c'_def Let_def)
      have m1: "mem h1 = (mem h)(c := needed OR 1)"
        by (simp add: h1_def)
      have ev: "even (unat needed)"
        using ru(1) by auto
      have size1: "bsize (mem h1) c = unat needed"
        using bsize_or_1 [OF ev, of "mem h1" c] by (simp add: m1)
      have uc': "unat c' = unat c + 8 + unat needed"
        unfolding c'_def using size1 bnd e NS
        by (intro unat_next_header [THEN trans]) simp_all
      have cc': "c' \<noteq> c"
        using uc' by auto
      have m': "mem h' = (mem h)(c := needed OR 1, c' := get_size h c - needed - 8)"
        by (simp add: h'_def m1)
      have seg: "segment_start h' = segment_start h" "segment_size h' = segment_size h"
        by (simp_all add: h'_def h1_def)
      have rest: "unat (get_size h c - needed - 8) = S - unat needed - 8"
      proof -
        have "unat (get_size h c - needed) = S - unat needed"
          using NS gs unat_minus [of needed "get_size h c"] by simp
        moreover have "unat (8::64 word) \<le> unat (get_size h c - needed)"
          using calculation lt by simp
        ultimately show ?thesis
          using unat_minus [of 8 "get_size h c - needed"] by simp
      qed
      have "even (S - unat needed - 8)"
        using Sok(1) ru(1) lt by presburger
      then have ev': "even (unat (get_size h c - needed - 8))"
        by (simp only: rest)
      have size_c: "bsize (mem h') c = unat needed"
        using bsize_or_1 [OF ev, of "mem h'" c] cc' by (simp add: m')
      have used_c: "bused (mem h') c"
        using bused_or_1 [OF ev, of "mem h'" c] cc' by (simp add: m')
      have size_c': "bsize (mem h') c' = S - unat needed - 8"
        using bsize_of_even [OF ev', of "mem h'" c'] rest by (simp add: m')
      have free_c': "\<not> bused (mem h') c'"
        using bused_of_even [OF ev', of "mem h'" c'] by (simp add: m')
      have c'_notin: "c' \<notin> set bs"
      proof
        assume "c' \<in> set bs"
        from tiles_inside [OF t some(1) this] uc' lt show False
          by (simp add: S_def)
      qed
      have same: "\<And>b. b \<in> set bs \<Longrightarrow> b \<noteq> c \<Longrightarrow> mem h' b = mem h b"
        using c'_notin by (auto simp add: m')
      have "\<exists>bs'. wf_blocks 8 h' bs' \<and> set bs' = insert c' (set bs)"
        using wf some(1) seg
      proof (rule wf_blocks_split)
        show "bsize (mem h') c = unat needed" by (rule size_c)
        show "8 dvd unat needed" by (rule ru(1))
        show "8 \<le> unat needed" by (rule ru(2))
        show "unat c' = unat c + 8 + unat needed" by (rule uc')
        show "bsize (mem h') c' + unat needed + 8 = bsize (mem h) c"
          using size_c' lt by (simp add: S_def)
        show "8 \<le> bsize (mem h') c'"
          using size_c' lt by simp
        fix b assume "b \<in> set bs" "b \<noteq> c"
        then show "bsize (mem h') b = bsize (mem h) b"
          using same [of b] by (simp add: bsize_def)
      qed
      then obtain bs' where wf': "wf_blocks 8 h' bs'" and set': "set bs' = insert c' (set bs)"
        by blast
      have "live_of (mem h') (insert c' (set bs)) = live_of (mem h') (set bs)"
        using free_c' by (auto simp add: live_of_def)
      also have "\<dots> = insert (c + 8) (live_of (mem h) (set bs))"
        using some(1) cfree used_c
      proof (rule live_of_insert_used)
        fix b assume "b \<in> set bs" "b \<noteq> c"
        then show "bused (mem h') b = bused (mem h) b"
          using same [of b] by (simp add: bused_def)
      qed
      finally have live: "live_of (mem h') (set bs') = insert (c + 8) (live_of (mem h) (set bs))"
        by (simp add: set')
      have "unat r \<le> bsize (mem h') (c + 8 - 8)"
        using ru(3) size_c by simp
      with res seg pnz wf' live some(1) set' fresh show ?thesis
        by auto
    qed
  qed
qed


lemma live_of_bounds:
  assumes "wf_blocks k h bs" and "b \<in> set bs"
  shows "unat (b + 8) = unat b + 8" and "b + 8 \<noteq> 0"
proof -
  from assms have "unat b + 8 + bsize (mem h) b < 18446744073709551616"
    using tiles_bounds [of "mem h" bs "unat (segment_start h)" "seg_end h" b]
    by (simp add: wf_blocks_def)
  then show "unat (b + 8) = unat b + 8"
    using unat_plus [of b 8] by simp
  then show "b + 8 \<noteq> 0"
    by (metis add_is_0 unsigned_0 zero_neq_numeral)
qed

lemma live_of_nonzero: "wf_blocks k h bs \<Longrightarrow> 0 \<notin> live_of (mem h) (set bs)"
  using live_of_bounds(2) [of k h bs] by (auto simp add: live_of_def)

lemma live_of_remove_used:
  assumes "bused m c" and "\<not> bused m' c"
    and "\<And>b. b \<in> B \<Longrightarrow> b \<noteq> c \<Longrightarrow> bused m' b = bused m b"
  shows "live_of m' B = live_of m B - {c + 8}"
  using assms by (auto simp add: live_of_def)

lemma myfree_i_inv:
  assumes wf: "wf_blocks 8 h bs" and p: "p \<in> live_of (mem h) (set bs) \<or> p = NULL"
  shows "wf_blocks 8 (myfree_i p h) bs \<and>
         live_of (mem (myfree_i p h)) (set bs) = live_of (mem h) (set bs) - {p} \<and>
         segment_start (myfree_i p h) = segment_start h \<and>
         segment_size (myfree_i p h) = segment_size h"
proof (cases "p = NULL")
  case True
  with wf live_of_nonzero [OF wf] show ?thesis
    by (simp add: myfree_i_def)
next
  case False
  with p obtain b where b: "b \<in> set bs" "bused (mem h) b" "p = b + 8"
    by (auto simp add: live_of_def)
  define h' where "h' = myfree_i p h"
  have m': "mem h' = (mem h)(b := mem h b AND - 2)"
    using False by (simp add: h'_def myfree_i_def get_header_def b(3) Let_def)
  have seg: "segment_start h' = segment_start h" "segment_size h' = segment_size h"
    using False by (simp_all add: h'_def myfree_i_def Let_def)
  have wf': "wf_blocks 8 h' bs"
    using wf seg
  proof (rule wf_blocks_same)
    fix c assume "c \<in> set bs"
    show "bsize (mem h') c = bsize (mem h) c"
      by (cases "c = b") (simp_all add: m' bsize_def and.assoc)
  qed
  have "live_of (mem h') (set bs) = live_of (mem h) (set bs) - {b + 8}"
    using b(2)
  proof (rule live_of_remove_used)
    show "\<not> bused (mem h') b"
      by (rule bused_and_not_1 [of _ _ "mem h"]) (simp add: m')
    fix c assume "c \<noteq> b"
    then show "bused (mem h') c = bused (mem h) c"
      by (simp add: m' bused_def)
  qed
  with wf' seg show ?thesis
    by (simp add: h'_def b(3))
qed

definition realloc_live :: "addr \<Rightarrow> size_t \<Rightarrow> addr \<Rightarrow> addr set \<Rightarrow> addr set" where
  "realloc_live p n q L =
     (if p = NULL then (if q = NULL then L else insert q L)
      else if n = 0 then L - {p}
      else if q = NULL then L
      else insert q (L - {p}))"

lemma myrealloc_i_inv:
  assumes wf: "wf_blocks 8 h bs" and p: "p \<in> live_of (mem h) (set bs) \<or> p = NULL"
  shows "\<exists>q h'. myrealloc_i p n h = Some (q, h') \<and>
           segment_start h' = segment_start h \<and> segment_size h' = segment_size h \<and>
           (\<exists>bs'. wf_blocks 8 h' bs' \<and>
              live_of (mem h') (set bs') = realloc_live p n q (live_of (mem h) (set bs)))"
proof -
  from mymalloc_i_inv [OF wf, of n] obtain q h1 where
    res: "mymalloc_i n h = Some (q, h1)"
    and seg1: "segment_start h1 = segment_start h" "segment_size h1 = segment_size h"
    and alt: "q = NULL \<and> h1 = h \<or>
       q \<noteq> NULL \<and> (\<exists>bs'. wf_blocks 8 h1 bs' \<and>
          live_of (mem h1) (set bs') = insert q (live_of (mem h) (set bs)) \<and>
          q \<notin> live_of (mem h) (set bs) \<and>
          q - 8 \<in> set bs' \<and> unat n \<le> bsize (mem h1) (q - 8))"
    by blast
  show ?thesis
  proof (cases "p = NULL")
    case True
    with res seg1 alt wf show ?thesis
      by (auto simp add: myrealloc_i_def realloc_live_def)
  next
    case pnz: False
    with p have pl: "p \<in> live_of (mem h) (set bs)" by simp
    show ?thesis
    proof (cases "n = 0")
      case True
      then have "mymalloc_i n h = Some (NULL, h)"
        by (simp add: mymalloc_i_def)
      with pnz True have "myrealloc_i p n h = Some (NULL, myfree_i p h)"
        by (simp add: myrealloc_i_def)
      with myfree_i_inv [OF wf p] pnz True show ?thesis
        by (auto simp add: realloc_live_def)
    next
      case nnz: False
      show ?thesis
      proof (cases "q = NULL")
        case True
        with alt have "h1 = h" by simp
        with res True pnz nnz have "myrealloc_i p n h = Some (NULL, h)"
          by (simp add: myrealloc_i_def Let_def)
        with wf pnz nnz show ?thesis
          by (auto simp add: realloc_live_def)
      next
        case qnz: False
        with alt obtain bs1 where wf1: "wf_blocks 8 h1 bs1"
          and live1: "live_of (mem h1) (set bs1) = insert q (live_of (mem h) (set bs))"
          and fresh: "q \<notin> live_of (mem h) (set bs)"
          and q8: "q - 8 \<in> set bs1" and fit: "unat n \<le> bsize (mem h1) (q - 8)"
          by blast
        define cnt where
          "cnt = (if n < get_size h1 (get_header p) then n else get_size h1 (get_header p))"
        define h2 where "h2 = memcpy q p cnt h1"
        have res2: "myrealloc_i p n h = Some (q, myfree_i p h2)"
          using res pnz nnz qnz by (simp add: myrealloc_i_def Let_def h2_def cnt_def)
        have cnt: "unat cnt \<le> unat n"
          by (simp add: cnt_def word_less_nat_alt)
        from wf1 have t1: "tiles (mem h1) bs1 (unat (segment_start h1)) (seg_end h1)"
          and e1: "seg_end h1 < 18446744073709551616"
          by (simp_all add: wf_blocks_def)
        have uq: "unat q = unat (q - 8) + 8"
          using live_of_bounds(1) [OF wf1 q8] by simp
        have bq: "unat (q - 8) + 8 + bsize (mem h1) (q - 8) \<le> seg_end h1"
          using tiles_bounds [OF t1 q8] by simp
        have frame: "mem h2 b = mem h1 b" if "b \<in> set bs1" for b
          unfolding h2_def
        proof (rule memcpy_frame)
          show "unat q + unat cnt \<le> 18446744073709551616"
            using uq bq e1 cnt fit by simp
          from tiles_inside [OF t1 q8 that]
          show "unat b < unat q \<or> unat q + unat cnt \<le> unat b"
            using uq cnt fit by auto
        qed
        have seg2: "segment_start h2 = segment_start h1" "segment_size h2 = segment_size h1"
          by (simp_all add: h2_def)
        have wf2: "wf_blocks 8 h2 bs1"
          using wf1 seg2 by (rule wf_blocks_same) (simp add: bsize_def frame)
        have live2: "live_of (mem h2) (set bs1) = live_of (mem h1) (set bs1)"
          by (auto simp add: live_of_def bused_def frame)
        have pl2: "p \<in> live_of (mem h2) (set bs1) \<or> p = NULL"
          using pl live1 live2 by simp
        have "insert q (live_of (mem h) (set bs)) - {p} = insert q (live_of (mem h) (set bs) - {p})"
          using fresh pl by auto
        with myfree_i_inv [OF wf2 pl2] res2 seg2 seg1 live2 live1 pnz nnz qnz show ?thesis
          by (auto simp add: realloc_live_def)
      qed
    qed
  qed
qed

section \<open>Reachable states of the implicit allocator\<close>

text \<open>
  A segment as the caller must provide it: it starts at a non-null address, its length is a
  multiple of the alignment, and it lies in the lower half of the address space (so that
  no address computed inside it wraps around).
\<close>

definition valid_segment :: "addr \<Rightarrow> size_t \<Rightarrow> bool" where
  "valid_segment base len \<longleftrightarrow>
     base \<noteq> NULL \<and> unat len mod 8 = 0 \<and> unat base + unat len \<le> 9223372036854775808"

text \<open>
  The states the client can reach, with the set of payload addresses it holds (returned by
  \<^verbatim>\<open>mymalloc\<close> or \<^verbatim>\<open>myrealloc\<close> and not yet freed).  The client frees and resizes only payloads
  it holds, and writes only into them (a write replaces one 8-byte cell of the payload).
\<close>

inductive reach_i :: "heap \<Rightarrow> addr set \<Rightarrow> bool" where
  i_init: "valid_segment base len \<Longrightarrow> myinit_i base len h0 = (True, h) \<Longrightarrow> reach_i h {}"
| i_alloc: "reach_i h L \<Longrightarrow> mymalloc_i n h = Some (p, h') \<Longrightarrow>
          reach_i h' (if p = NULL then L else insert p L)"
| i_free: "reach_i h L \<Longrightarrow> p \<in> L \<or> p = NULL \<Longrightarrow> reach_i (myfree_i p h) (L - {p})"
| i_resize: "reach_i h L \<Longrightarrow> p \<in> L \<or> p = NULL \<Longrightarrow> myrealloc_i p n h = Some (q, h') \<Longrightarrow>
           reach_i h' (realloc_live p n q L)"
| i_write: "reach_i h L \<Longrightarrow> p \<in> L \<Longrightarrow> off < get_size h (get_header p) \<Longrightarrow>
            off AND 7 = 0 \<Longrightarrow> reach_i (store (p + off) v h) L"

lemma myinit_i_inv:
  assumes "valid_segment base len" and "myinit_i base len h0 = (True, h)"
  shows "wf_blocks 8 h [base]" and "live_of (mem h) (set [base]) = {}"
proof -
  from assms(2) have len: "\<not> len < 16"
    by (auto simp add: myinit_i_def Let_def split: if_splits)
  with assms(2) have h: "h = (store base (len - 8) (h0\<lparr>segment_start := base, segment_size := len\<rparr>))\<lparr>nused := 0\<rparr>"
    by (simp add: myinit_i_def Let_def)
  have l16: "16 \<le> unat len"
    using len by (simp add: word_less_nat_alt)
  have u: "unat (len - 8) = unat len - 8"
    using l16 unat_minus [of 8 len] by simp
  have "unat len mod 8 = 0"
    using assms(1) by (simp add: valid_segment_def)
  then have d: "8 dvd unat len - 8"
    using l16 by presburger
  then have ev: "even (unat (len - 8))"
    unfolding u by presburger
  have m: "mem h base = len - 8"
    by (simp add: h)
  have sz: "bsize (mem h) base = unat len - 8"
    using bsize_of_even [of "len - 8" "mem h" base] ev m u by simp
  have fr: "\<not> bused (mem h) base"
    using bused_of_even [of "len - 8" "mem h" base] ev m by simp
  have seg: "segment_start h = base" "segment_size h = len"
    by (simp_all add: h)
  show "wf_blocks 8 h [base]"
    using assms(1) sz d l16 by (simp add: wf_blocks_def seg valid_segment_def)
  show "live_of (mem h) (set [base]) = {}"
    using fr by (simp add: live_of_def)
qed

lemma write_i_inv:
  assumes wf: "wf_blocks k h bs" and p: "p \<in> live_of (mem h) (set bs)"
    and off: "off < get_size h (get_header p)" and b: "b \<in> set bs"
  shows "p + off \<noteq> b"
proof -
  from p obtain c where c: "c \<in> set bs" "p = c + 8"
    by (auto simp add: live_of_def)
  from wf have t: "tiles (mem h) bs (unat (segment_start h)) (seg_end h)"
    and e: "seg_end h < 18446744073709551616"
    by (simp_all add: wf_blocks_def)
  have o: "unat off < bsize (mem h) c"
    using off by (simp add: word_less_nat_alt unat_get_size get_header_def c(2))
  have up: "unat p = unat c + 8"
    using live_of_bounds(1) [OF wf c(1)] c(2) by simp
  have "unat c + 8 + bsize (mem h) c \<le> seg_end h"
    using tiles_bounds [OF t c(1)] by simp
  then have "unat (p + off) = unat c + 8 + unat off"
    using up o e unat_plus [of p off] by simp
  with tiles_inside [OF t c(1) b] o show ?thesis
    by auto
qed

lemma reach_i_inv:
  "reach_i h L \<Longrightarrow> \<exists>bs. wf_blocks 8 h bs \<and> L = live_of (mem h) (set bs)"
proof (induction rule: reach_i.induct)
  case (i_init base len h0 h)
  from myinit_i_inv [OF this] show ?case by metis
next
  case (i_alloc h L n p h')
  then obtain bs where wf: "wf_blocks 8 h bs" and L: "L = live_of (mem h) (set bs)"
    by blast
  from mymalloc_i_inv [OF wf, of n] i_alloc.hyps(2) L wf show ?case
    by auto
next
  case (i_free h L p)
  then obtain bs where wf: "wf_blocks 8 h bs" and L: "L = live_of (mem h) (set bs)"
    by blast
  from myfree_i_inv [OF wf, of p] i_free.hyps(2) L show ?case
    by auto
next
  case (i_resize h L p n q h')
  then obtain bs where wf: "wf_blocks 8 h bs" and L: "L = live_of (mem h) (set bs)"
    by blast
  from myrealloc_i_inv [OF wf, of p n] i_resize.hyps(2,3) L show ?case
    by auto
next
  case (i_write h L p off v)
  then obtain bs where wf: "wf_blocks 8 h bs" and L: "L = live_of (mem h) (set bs)"
    by blast
  have nb: "\<And>b. b \<in> set bs \<Longrightarrow> p + off \<noteq> b"
    using write_i_inv [OF wf _ i_write.hyps(3)] i_write.hyps(2) L by simp
  have "wf_blocks 8 (store (p + off) v h) bs"
    using wf by (rule wf_blocks_same) (auto simp add: bsize_def dest: nb)
  moreover have "live_of (mem (store (p + off) v h)) (set bs) = live_of (mem h) (set bs)"
    by (auto simp add: live_of_def bused_def dest: nb)
  ultimately show ?case
    using L by blast
qed

lemma wf_blocks_walk:
  assumes "wf_blocks k h bs"
  shows "heap_walk 0 (segment_start h) h = Some (segment_size h)"
proof -
  from assms have "heap_walk 0 (segment_start h) h
      = Some (0 + of_nat (seg_end h - unat (segment_start h)))"
    by (intro heap_walk_tiles [of h bs]) (simp_all add: wf_blocks_def)
  then show ?thesis by simp
qed

lemma wf_blocks_dump:
  assumes "wf_blocks k h bs"
  shows "dump_heap h = Some (map (\<lambda>b. (b, is_used h b, get_size h b)) bs)"
  using assms dump_walk_tiles [of h bs "segment_start h" "[]"]
  by (simp add: wf_blocks_def dump_heap_def)

section \<open>The doubly linked free list\<close>

text \<open>
  \<open>dll m p c fs\<close>: starting at \<open>c\<close>, whose predecessor is \<open>p\<close>, the next links run through the
  nodes \<open>fs\<close> and end with \<^verbatim>\<open>NULL\<close>; every prev link points to the node before.
\<close>

fun dll :: "memory \<Rightarrow> addr \<Rightarrow> addr \<Rightarrow> addr list \<Rightarrow> bool" where
  "dll m p c [] = (c = NULL)"
| "dll m p c (f # fs) = (c = f \<and> f \<noteq> NULL \<and> m (f + 8) = p \<and> dll m f (m (f + 16)) fs)"

text \<open>The link cells of two different nodes never coincide.\<close>

definition apart :: "addr set \<Rightarrow> bool" where
  "apart N \<longleftrightarrow> (\<forall>f \<in> N. \<forall>g \<in> N. f \<noteq> g \<longrightarrow> f + 8 \<noteq> g + 16)"

lemma apart_subset: "apart N \<Longrightarrow> M \<subseteq> N \<Longrightarrow> apart M"
  unfolding apart_def by blast

lemma apartD: "apart N \<Longrightarrow> f \<in> N \<Longrightarrow> g \<in> N \<Longrightarrow> f \<noteq> g \<Longrightarrow> f + 8 \<noteq> g + 16"
  unfolding apart_def by blast

lemma dll_nonzero: "dll m p c fs \<Longrightarrow> NULL \<notin> set fs"
  by (induction fs arbitrary: p c) auto

lemma dll_frame:
  "(\<And>f. f \<in> set fs \<Longrightarrow> m' (f + 8) = m (f + 8) \<and> m' (f + 16) = m (f + 16)) \<Longrightarrow>
   dll m' p c fs = dll m p c fs"
  by (induction fs arbitrary: p c) auto

lemma dll_head: "dll m p c fs \<Longrightarrow> c = (case fs of [] \<Rightarrow> NULL | f # _ \<Rightarrow> f)"
  by (cases fs) auto

lemma dll_links:
  "dll m p c (xs @ x # ys) \<Longrightarrow>
   m (x + 8) = last (p # xs) \<and> m (x + 16) = (case ys of [] \<Rightarrow> NULL | y # _ \<Rightarrow> y)"
proof (induction xs arbitrary: p c)
  case Nil
  then show ?case by (cases ys) auto
next
  case (Cons z zs)
  from Cons.prems have "dll m z (m (z + 16)) (zs @ x # ys)" by simp
  from Cons.IH [OF this] show ?case by simp
qed

text \<open>
  The two stores of \<^verbatim>\<open>remove_free\<close>, on memory alone; \<open>prv\<close> and \<open>nxt\<close> are the links read
  from the removed node.
\<close>

definition unlink :: "addr \<Rightarrow> addr \<Rightarrow> memory \<Rightarrow> memory" where
  "unlink prv nxt m =
     (let m = (if prv \<noteq> NULL then m(prv + 16 := nxt) else m)
      in if nxt \<noteq> NULL then m(nxt + 8 := prv) else m)"

lemma dll_unlink:
  assumes "dll m p c (xs @ x # ys)" and "distinct (xs @ x # ys)"
    and "p \<notin> set (xs @ x # ys)"
    and "apart (set (xs @ x # ys) \<union> (if p = NULL then {} else {p}))"
  shows "dll (unlink (m (x + 8)) (m (x + 16)) m) p
           (if xs = [] then m (x + 16) else c) (xs @ ys)"
  using assms
proof (induction xs arbitrary: p c)
  case Nil
  then have x: "c = x" "x \<noteq> 0" "m (x + 8) = p" and ys: "dll m x (m (x + 16)) ys"
    by simp_all
  show ?case
  proof (cases ys)
    case Nil
    with ys show ?thesis by (simp add: unlink_def Let_def)
  next
    case (Cons y ys')
    with ys have y: "m (x + 16) = y" "y \<noteq> 0" "m (y + 8) = x" and ys': "dll m y (m (y + 16)) ys'"
      by simp_all
    define m2 where "m2 = unlink p y m"
    have d: "y \<notin> set ys'" "y \<noteq> x" "y \<noteq> p"
      using Nil.prems(2,3) Cons by auto
    have ap1: "f + 8 \<noteq> p + 16" if "f \<in> set ys'" "p \<noteq> 0" for f
    proof (rule apartD [OF Nil.prems(4)])
      show "f \<in> set ([] @ x # ys) \<union> (if p = 0 then {} else {p})"
        using that Cons by simp
      show "p \<in> set ([] @ x # ys) \<union> (if p = 0 then {} else {p})"
        using that by simp
      show "f \<noteq> p"
        using that Nil.prems(3) Cons by auto
    qed
    have ap2: "y + 8 \<noteq> f + 16" if "f \<in> set ys'" for f
    proof (rule apartD [OF Nil.prems(4)])
      show "f \<in> set ([] @ x # ys) \<union> (if p = 0 then {} else {p})"
        using that Cons by simp
      show "y \<in> set ([] @ x # ys) \<union> (if p = 0 then {} else {p})"
        using Cons by simp
      show "y \<noteq> f"
        using that d by auto
    qed
    have 1: "m2 (y + 8) = p"
      by (simp add: m2_def unlink_def Let_def y)
    have 2: "m2 (y + 16) = m (y + 16)"
      using d by (simp add: m2_def unlink_def Let_def y)
    have "dll m2 y (m (y + 16)) ys' = dll m y (m (y + 16)) ys'"
    proof (rule dll_frame)
      fix f assume f: "f \<in> set ys'"
      with d Nil.prems(3) Cons have "f \<noteq> y" "f \<noteq> p" by auto
      with ap1 [OF f] ap2 [OF f] show "m2 (f + 8) = m (f + 8) \<and> m2 (f + 16) = m (f + 16)"
        by (simp add: m2_def unlink_def Let_def y)
    qed
    with ys' 1 2 y show ?thesis
      by (simp add: Cons x m2_def)
  qed
next
  case (Cons z zs)
  from Cons.prems have z: "c = z" "z \<noteq> 0" "m (z + 8) = p"
    and rest: "dll m z (m (z + 16)) (zs @ x # ys)"
    by simp_all
  define prv where "prv = m (x + 8)"
  define nxt where "nxt = m (x + 16)"
  define m2 where "m2 = unlink prv nxt m"
  from dll_links [OF rest] have pn: "prv = last (z # zs)"
    "nxt = (case ys of [] \<Rightarrow> 0 | y # _ \<Rightarrow> y)"
    by (simp_all add: prv_def nxt_def)
  have prev_in: "prv \<in> set (z # zs)"
    unfolding pn by (rule last_in_set) simp
  have nz: "NULL \<notin> set (z # zs @ x # ys)"
    using dll_nonzero [OF Cons.prems(1)] by simp
  have next_in: "nxt = 0 \<or> nxt \<in> set ys"
    unfolding pn by (cases ys) simp_all
  have ap: "apart (set (zs @ x # ys) \<union> (if z = 0 then {} else {z}))"
    using Cons.prems(4) by (rule apart_subset) auto
  have IH: "dll m2 z (if zs = [] then nxt else m (z + 16)) (zs @ ys)"
    unfolding m2_def prv_def nxt_def
    using rest Cons.prems(2) ap by (intro Cons.IH) auto
  have apz: "z + 8 \<noteq> g + 16 \<and> g + 8 \<noteq> z + 16" if "g \<in> set (zs @ x # ys)" for g
  proof -
    have "g \<noteq> z" using that Cons.prems(2) by auto
    moreover have "g \<in> set ((z # zs) @ x # ys) \<union> (if p = 0 then {} else {p})"
      "z \<in> set ((z # zs) @ x # ys) \<union> (if p = 0 then {} else {p})"
      using that by auto
    ultimately show ?thesis
      using apartD [OF Cons.prems(4), of z g] apartD [OF Cons.prems(4), of g z] by blast
  qed
  have zprev: "z + 8 \<noteq> prv + 16"
    using prev_in apz by auto
  have znext: "nxt \<noteq> 0 \<Longrightarrow> z + 8 \<noteq> nxt + 8 \<and> z + 16 \<noteq> nxt + 8"
    using next_in apz Cons.prems(2) by auto
  have 1: "m2 (z + 8) = p"
    using zprev znext by (auto simp add: m2_def unlink_def Let_def z)
  have 2: "m2 (z + 16) = (if zs = [] then nxt else m (z + 16))"
  proof (cases "zs = []")
    case True
    then have "prv = z" by (simp add: pn)
    with znext z(2) show ?thesis
      by (auto simp add: m2_def unlink_def Let_def True)
  next
    case False
    then have "prv \<in> set zs"
      unfolding pn by simp
    with Cons.prems(2) have "prv \<noteq> z" by auto
    with znext False show ?thesis
      by (auto simp add: m2_def unlink_def Let_def)
  qed
  from IH 1 2 z show ?case
    by (simp add: m2_def prv_def nxt_def)
qed

lemma unlink_frame:
  assumes "a \<noteq> prv + 16 \<or> prv = 0" and "a \<noteq> nxt + 8 \<or> nxt = 0"
  shows "unlink prv nxt m a = m a"
  using assms by (auto simp add: unlink_def Let_def)

text \<open>The stores of \<^verbatim>\<open>add_free\<close>, on memory alone; \<open>c\<close> is the old head of the list.\<close>

definition link_head :: "addr \<Rightarrow> addr \<Rightarrow> memory \<Rightarrow> memory" where
  "link_head x c m =
     (let m = m(x + 8 := NULL, x + 16 := c)
      in if c \<noteq> NULL then m(c + 8 := x) else m)"

lemma dll_link_head:
  assumes "dll m NULL c fs" and "x \<notin> set fs" and "x \<noteq> NULL"
    and "apart (insert x (set fs))" and "distinct fs"
  shows "dll (link_head x c m) NULL x (x # fs)"
proof (cases fs)
  case Nil
  with assms(1) have "c = 0" by simp
  with Nil assms(3) show ?thesis
    by (simp add: link_head_def Let_def)
next
  case (Cons f fs')
  with assms(1) have f: "c = f" "f \<noteq> 0" "m (f + 8) = 0" and rest: "dll m f (m (f + 16)) fs'"
    by simp_all
  define m2 where "m2 = link_head x f m"
  have xf: "x \<noteq> f"
    using assms(2) Cons by simp
  have ap: "g + 8 \<noteq> x + 16 \<and> x + 8 \<noteq> g + 16" if "g \<in> set fs" for g
  proof -
    have "g \<noteq> x" using that assms(2) by auto
    then show ?thesis
      using apartD [OF assms(4), of x g] apartD [OF assms(4), of g x] that by simp
  qed
  have 1: "m2 (x + 8) = 0" "m2 (x + 16) = f" "m2 (f + 8) = x"
    using xf f(2) ap [of f] Cons by (auto simp add: m2_def link_head_def Let_def)
  have 2: "m2 (f + 16) = m (f + 16)"
    using xf f(2) ap [of f] Cons by (auto simp add: m2_def link_head_def Let_def)
  have "dll m2 f (m (f + 16)) fs' = dll m f (m (f + 16)) fs'"
  proof (rule dll_frame)
    fix g assume g: "g \<in> set fs'"
    then have gf: "g \<noteq> f" "g \<in> set fs"
      using assms(5) Cons by auto
    have gx: "g \<noteq> x"
      using g assms(2) Cons by auto
    have "f + 8 \<noteq> g + 16"
      using apartD [OF assms(4), of f g] gf Cons by simp
    with gf gx ap [OF gf(2)] show "m2 (g + 8) = m (g + 8) \<and> m2 (g + 16) = m (g + 16)"
      by (auto simp add: m2_def link_head_def Let_def)
  qed
  with rest 1 2 f assms(3) show ?thesis
    by (simp add: Cons m2_def)
qed

section \<open>\<^verbatim>\<open>remove_free\<close> and \<^verbatim>\<open>add_free\<close> on a well-formed list\<close>

lemma remove_free_eq:
  "mem (remove_free x h) = unlink (mem h (x + 8)) (mem h (x + 16)) (mem h)"
  "free_start (remove_free x h) = (if mem h (x + 8) \<noteq> 0 then free_start h else mem h (x + 16))"
  "segment_start (remove_free x h) = segment_start h"
  "segment_size (remove_free x h) = segment_size h"
  "nused (remove_free x h) = nused h"
  by (simp_all add: remove_free_def unlink_def get_prev_free_def get_next_free_def Let_def store_def)

lemma add_free_eq:
  "mem (add_free x h) = link_head x (free_start h) (mem h)"
  "free_start (add_free x h) = x"
  "segment_start (add_free x h) = segment_start h"
  "segment_size (add_free x h) = segment_size h"
  "nused (add_free x h) = nused h"
  by (simp_all add: add_free_def link_head_def get_prev_free_def get_next_free_def Let_def store_def)

lemma remove_free_dll:
  assumes d: "dll (mem h) 0 (free_start h) fs" and dist: "distinct fs" and x: "x \<in> set fs"
    and ap: "apart (set fs)"
  shows "dll (mem (remove_free x h)) 0 (free_start (remove_free x h)) (remove1 x fs)"
proof -
  from x obtain xs ys where fs: "fs = xs @ x # ys"
    by (auto dest: split_list)
  have nz: "0 \<notin> set fs"
    using dll_nonzero [OF d] .
  have rm: "remove1 x fs = xs @ ys"
    using dist by (simp add: fs remove1_append)
  from dll_links [OF d [unfolded fs]]
  have links: "mem h (x + 8) = last (0 # xs)"
    "mem h (x + 16) = (case ys of [] \<Rightarrow> 0 | y # _ \<Rightarrow> y)"
    by simp_all
  have prv: "(mem h (x + 8) \<noteq> 0) = (xs \<noteq> [])"
  proof (cases "xs = []")
    case True
    then show ?thesis by (simp add: links)
  next
    case False
    then have "last xs \<in> set fs" by (simp add: fs)
    with nz False show ?thesis by (auto simp add: links)
  qed
  have "dll (unlink (mem h (x + 8)) (mem h (x + 16)) (mem h)) 0
          (if xs = [] then mem h (x + 16) else free_start h) (xs @ ys)"
    using d dist nz ap unfolding fs by (intro dll_unlink) simp_all
  then show ?thesis
    by (cases "xs = []") (simp_all add: remove_free_eq prv rm)
qed

lemma remove_free_frame:
  assumes d: "dll (mem h) 0 (free_start h) fs" and x: "x \<in> set fs"
    and a: "\<And>f. f \<in> set fs \<Longrightarrow> f \<noteq> x \<Longrightarrow> a \<noteq> f + 8 \<and> a \<noteq> f + 16"
    and dist: "distinct fs"
  shows "mem (remove_free x h) a = mem h a"
proof -
  from x obtain xs ys where fs: "fs = xs @ x # ys"
    by (auto dest: split_list)
  from dll_links [OF d [unfolded fs]]
  have links: "mem h (x + 8) = last (0 # xs)"
    "mem h (x + 16) = (case ys of [] \<Rightarrow> 0 | y # _ \<Rightarrow> y)"
    by simp_all
  have 1: "a \<noteq> mem h (x + 8) + 16 \<or> mem h (x + 8) = 0"
  proof (cases "xs = []")
    case True
    then show ?thesis by (simp add: links)
  next
    case False
    then have "last xs \<in> set fs" "last xs \<noteq> x"
      using dist by (auto simp add: fs)
    from a [OF this] False show ?thesis by (simp add: links)
  qed
  have 2: "a \<noteq> mem h (x + 16) + 8 \<or> mem h (x + 16) = 0"
  proof (cases ys)
    case Nil
    then show ?thesis by (simp add: links)
  next
    case (Cons y ys')
    then have "y \<in> set fs" "y \<noteq> x"
      using dist by (auto simp add: fs)
    from a [OF this] Cons show ?thesis by (simp add: links)
  qed
  from 1 2 show ?thesis
    unfolding remove_free_eq by (rule unlink_frame)
qed

lemma add_free_dll:
  assumes "dll (mem h) 0 (free_start h) fs" and "distinct fs" and "x \<notin> set fs" and "x \<noteq> 0"
    and "apart (insert x (set fs))"
  shows "dll (mem (add_free x h)) 0 (free_start (add_free x h)) (x # fs)"
  using assms by (simp only: add_free_eq) (rule dll_link_head)

lemma add_free_frame:
  assumes d: "dll (mem h) 0 (free_start h) fs"
    and "a \<noteq> x + 8" and "a \<noteq> x + 16" and "\<And>f. f \<in> set fs \<Longrightarrow> a \<noteq> f + 8"
  shows "mem (add_free x h) a = mem h a"
proof (cases fs)
  case Nil
  with d have "free_start h = 0" by simp
  with assms(2,3) show ?thesis
    by (simp add: add_free_eq link_head_def Let_def)
next
  case (Cons f fs')
  with d have "free_start h = f" by simp
  with assms(2,3) assms(4) [of f] Cons show ?thesis
    by (simp add: add_free_eq link_head_def Let_def)
qed

section \<open>Headers and link cells of different blocks\<close>

text \<open>Every node needs three cells; \<open>sep N\<close>: the three cells of different nodes of \<open>N\<close> are disjoint.\<close>

definition sep :: "addr set \<Rightarrow> bool" where
  "sep N \<longleftrightarrow>
     (\<forall>f \<in> N. unat f + 24 < 18446744073709551616) \<and>
     (\<forall>f \<in> N. \<forall>g \<in> N. f \<noteq> g \<longrightarrow> unat f + 24 \<le> unat g \<or> unat g + 24 \<le> unat f)"

lemma sep_subset: "sep N \<Longrightarrow> M \<subseteq> N \<Longrightarrow> sep M"
  unfolding sep_def by blast

lemma sep_unat:
  assumes "sep N" and "f \<in> N"
  shows "unat (f + 8) = unat f + 8" and "unat (f + 16) = unat f + 16"
proof -
  from assms have "unat f + 24 < 18446744073709551616"
    unfolding sep_def by blast
  then show "unat (f + 8) = unat f + 8" "unat (f + 16) = unat f + 16"
    using unat_plus [of f 8] unat_plus [of f 16] by simp_all
qed

lemma sep_cells:
  assumes "sep N" and "f \<in> N" and "g \<in> N" and "f \<noteq> g"
  shows "f \<noteq> g + 8" and "f \<noteq> g + 16" and "f + 8 \<noteq> g + 16"
proof -
  from assms have "unat f + 24 \<le> unat g \<or> unat g + 24 \<le> unat f"
    unfolding sep_def by blast
  then have ne: "unat f \<noteq> unat (g + 8)" "unat f \<noteq> unat (g + 16)"
    "unat (f + 8) \<noteq> unat (g + 16)"
    using sep_unat [OF assms(1,2)] sep_unat [OF assms(1,3)] by auto
  show "f \<noteq> g + 8"
  proof
    assume "f = g + 8"
    then have "unat f = unat (g + 8)" by (rule arg_cong)
    with ne(1) show False by (rule notE)
  qed
  show "f \<noteq> g + 16"
  proof
    assume "f = g + 16"
    then have "unat f = unat (g + 16)" by (rule arg_cong)
    with ne(2) show False by (rule notE)
  qed
  show "f + 8 \<noteq> g + 16"
  proof
    assume "f + 8 = g + 16"
    then have "unat (f + 8) = unat (g + 16)" by (rule arg_cong)
    with ne(3) show False by (rule notE)
  qed
qed

lemma sep_apart: "sep N \<Longrightarrow> M \<subseteq> N \<Longrightarrow> apart M"
  unfolding apart_def using sep_cells(3) by blast

lemma sep_self:
  assumes "sep N" and "f \<in> N"
  shows "f \<noteq> f + 8" and "f \<noteq> f + 16" and "f + 8 \<noteq> f + 16"
  by simp_all

lemma wf_sep:
  assumes "wf_blocks 16 h bs"
  shows "sep (set bs)"
  unfolding sep_def
proof (intro conjI ballI impI)
  from assms have t: "tiles (mem h) bs (unat (segment_start h)) (seg_end h)"
    and e: "seg_end h < 18446744073709551616"
    and sz: "\<And>b. b \<in> set bs \<Longrightarrow> 16 \<le> bsize (mem h) b"
    by (simp_all add: wf_blocks_def)
  fix f assume f: "f \<in> set bs"
  from tiles_bounds [OF t f] sz [OF f] e show "unat f + 24 < 18446744073709551616"
    by simp
  fix g assume g: "g \<in> set bs" and "f \<noteq> g"
  then have "unat f \<noteq> unat g" using word_of_unat_eq by blast
  with tiles_inside [OF t f g] tiles_inside [OF t g f] sz [OF f] sz [OF g]
  show "unat f + 24 \<le> unat g \<or> unat g + 24 \<le> unat f"
    by auto
qed

text \<open>A new header inside block \<open>c\<close>, at least 24 bytes from both ends.\<close>

lemma wf_sep_split:
  assumes wf: "wf_blocks 16 h bs" and c: "c \<in> set bs"
    and c': "unat c' = unat c + 8 + n" and n: "16 \<le> n" "n + 24 \<le> bsize (mem h) c"
  shows "sep (insert c' (set bs))" and "c' \<notin> set bs"
proof -
  from wf have t: "tiles (mem h) bs (unat (segment_start h)) (seg_end h)"
    and e: "seg_end h < 18446744073709551616"
    and sz: "\<And>b. b \<in> set bs \<Longrightarrow> 16 \<le> bsize (mem h) b"
    by (simp_all add: wf_blocks_def)
  show notin: "c' \<notin> set bs"
  proof
    assume "c' \<in> set bs"
    from tiles_inside [OF t c this] c' n show False by simp
  qed
  have far: "unat c' + 24 \<le> unat g \<or> unat g + 24 \<le> unat c'" if g: "g \<in> set bs" for g
  proof (cases "g = c")
    case True
    with c' n show ?thesis by simp
  next
    case False
    then have "unat g \<noteq> unat c" using word_of_unat_eq by blast
    with tiles_inside [OF t c g] tiles_inside [OF t g c] sz [OF g] c' n show ?thesis
      by auto
  qed
  have c'b: "unat c' + 24 < 18446744073709551616"
    using tiles_bounds [OF t c] c' n e by simp
  from wf_sep [OF wf] have s: "sep (set bs)" .
  show "sep (insert c' (set bs))"
    unfolding sep_def
  proof (intro conjI ballI impI)
    fix f assume "f \<in> insert c' (set bs)"
    with c'b s show "unat f + 24 < 18446744073709551616"
      unfolding sep_def by auto
  next
    fix f g assume fg: "f \<in> insert c' (set bs)" "g \<in> insert c' (set bs)" "f \<noteq> g"
    then consider "f = c'" "g \<in> set bs" | "g = c'" "f \<in> set bs" | "f \<in> set bs" "g \<in> set bs"
      by auto
    then show "unat f + 24 \<le> unat g \<or> unat g + 24 \<le> unat f"
    proof cases
      case 1
      with far [of g] show ?thesis by simp
    next
      case 2
      with far [of f] show ?thesis by auto
    next
      case 3
      with s fg(3) show ?thesis unfolding sep_def by blast
    qed
  qed
qed

section \<open>The invariant of the explicit allocator\<close>

definition inv_e :: "eheap \<Rightarrow> addr list \<Rightarrow> addr list \<Rightarrow> bool" where
  "inv_e h bs fs \<longleftrightarrow>
     wf_blocks 16 h bs \<and> segment_start h \<noteq> NULL \<and> seg_end h \<le> 9223372036854775808 \<and>
     dll (mem h) NULL (free_start h) fs \<and> distinct fs \<and>
     set fs = {b \<in> set bs. \<not> bused (mem h) b}"

lemma sep_header_link:
  assumes "sep N" and "a \<in> N" and "f \<in> N"
  shows "a \<noteq> f + 8" and "a \<noteq> f + 16"
  using sep_cells(1,2) [OF assms(1,2,3)] by (cases "a = f"; simp)+

lemma wf_nonzero:
  assumes "wf_blocks k h bs" and "segment_start h \<noteq> 0" and "b \<in> set bs"
  shows "b \<noteq> 0"
proof -
  from assms(1,3) have "unat (segment_start h) \<le> unat b"
    using tiles_bounds [of "mem h" bs "unat (segment_start h)" "seg_end h" b]
    by (simp add: wf_blocks_def)
  moreover have "0 < unat (segment_start h)"
    using assms(2) by (simp add: unat_gt_0)
  ultimately show ?thesis by auto
qed

lemma find_fit_dll:
  assumes "dll (mem h) p c fs"
  shows "\<exists>r. find_fit needed c h = Some r \<and>
            (r = NULL \<or> r \<in> set fs \<and> needed \<le> get_size h r)"
  using assms
proof (induction fs arbitrary: p c)
  case Nil
  then have "c = 0" by simp
  then show ?case
    by (subst find_fit.simps) simp
next
  case (Cons f fs)
  then have c: "c = f" "f \<noteq> 0" and rest: "dll (mem h) f (mem h (f + 16)) fs"
    by simp_all
  show ?case
  proof (cases "get_size h c < needed")
    case True
    with c have "find_fit needed c h = find_fit needed (mem h (f + 16)) h"
      by (subst find_fit.simps) (simp add: get_next_free_def)
    with Cons.IH [OF rest] show ?thesis by auto
  next
    case False
    with c have "find_fit needed c h = Some f"
      by (subst find_fit.simps) simp
    with False c show ?thesis by auto
  qed
qed

lemma roundup_e_unat:
  "unat (roundup_e r 8) = max 16 (unat (roundup_i r 8))"
  by (auto simp add: roundup_e_def roundup_i_def Let_def word_less_nat_alt)

lemma roundup_i_dvd: "8 dvd unat (roundup_i r 8)"
  by (simp add: roundup_i_def unat_and_m8)

lemma roundup_e_props:
  shows "8 dvd unat (roundup_e r 8)" and "16 \<le> unat (roundup_e r 8)"
  using roundup_i_dvd [of r] by (auto simp add: roundup_e_unat max_def)

lemma roundup_e_small:
  assumes "r \<noteq> 0" and "\<not> r > MAX_REQUEST_SIZE"
  shows "unat r \<le> unat (roundup_e r 8)" and "unat (roundup_e r 8) \<le> 1073741824"
  using roundup_i_props [OF assms] by (auto simp add: roundup_e_unat)

lemma roundup_e_idem:
  assumes "8 dvd unat n" and "16 \<le> unat n"
  shows "roundup_e n 8 = n"
proof -
  have "unat n < 18446744073709551616"
    by (rule unat_lt64)
  with assms(1) have "unat n + 7 < 18446744073709551616"
    by presburger
  then have "unat (roundup_i n 8) = 8 * ((unat n + 7) div 8)"
    by (rule roundup_i_unat)
  also have "\<dots> = unat n"
    using assms(1) by presburger
  finally have "unat (roundup_e n 8) = unat n"
    using assms(2) by (simp add: roundup_e_unat)
  then show ?thesis
    by (rule word_of_unat_eq)
qed

text \<open>Header cells survive the list operations.\<close>

lemma remove_free_header:
  assumes "sep N" and "set fs \<subseteq> N" and "a \<in> N"
    and "dll (mem h) 0 (free_start h) fs" and "x \<in> set fs" and "distinct fs"
  shows "mem (remove_free x h) a = mem h a"
  using assms(4,5)
proof (rule remove_free_frame)
  fix f assume "f \<in> set fs"
  with assms(2) have "f \<in> N" by auto
  from sep_header_link [OF assms(1,3) this] show "a \<noteq> f + 8 \<and> a \<noteq> f + 16"
    by simp
qed (rule assms(6))

lemma add_free_header:
  assumes "sep N" and "set fs \<subseteq> N" and "x \<in> N" and "a \<in> N"
    and "dll (mem h) 0 (free_start h) fs"
  shows "mem (add_free x h) a = mem h a"
  using assms(5)
proof (rule add_free_frame)
  show "a \<noteq> x + 8" "a \<noteq> x + 16"
    using sep_header_link [OF assms(1,4,3)] by simp_all
  fix f assume "f \<in> set fs"
  with assms(2) have "f \<in> N" by auto
  from sep_header_link [OF assms(1,4) this] show "a \<noteq> f + 8"
    by simp
qed

lemma dll_store_header:
  assumes "sep N" and "set fs \<subseteq> N" and "a \<in> N"
  shows "dll (m(a := v)) p c fs = dll m p c fs"
proof (rule dll_frame)
  fix f assume "f \<in> set fs"
  with assms(2) have "f \<in> N" by auto
  from sep_header_link [OF assms(1,3) this]
  show "(m(a := v)) (f + 8) = m (f + 8) \<and> (m(a := v)) (f + 16) = m (f + 16)"
    by simp
qed

section \<open>\<^verbatim>\<open>mymalloc\<close> of the explicit allocator keeps the invariant\<close>

lemma set_used_simps [simp]:
  "mem (set_used c h) = (mem h)(c := mem h c OR 1)"
  "segment_start (set_used c h) = segment_start h"
  "segment_size (set_used c h) = segment_size h"
  "nused (set_used c h) = nused h"
  "free_start (set_used c h) = free_start h"
  by (simp_all add: set_used_def store_def)

lemma set_free_simps [simp]:
  "mem (set_free c h) = (mem h)(c := mem h c AND - 2)"
  "segment_start (set_free c h) = segment_start h"
  "segment_size (set_free c h) = segment_size h"
  "nused (set_free c h) = nused h"
  "free_start (set_free c h) = free_start h"
  by (simp_all add: set_free_def store_def)

lemma store_free_start [simp]: "free_start (store p v h) = free_start h"
  by (simp add: store_def)

lemma free_set_remove:
  assumes "F = {b \<in> B. \<not> bused m b}" and "bused m' c"
    and "\<And>b. b \<in> B \<Longrightarrow> b \<noteq> c \<Longrightarrow> bused m' b = bused m b"
  shows "F - {c} = {b \<in> B. \<not> bused m' b}"
proof (rule set_eqI)
  fix x
  show "(x \<in> F - {c}) = (x \<in> {b \<in> B. \<not> bused m' b})"
    using assms by (cases "x = c") auto
qed

lemma free_set_add:
  assumes "F = {b \<in> B. \<not> bused m b}" and "\<not> bused m' c" and "c \<in> B"
    and "\<And>b. b \<in> B \<Longrightarrow> b \<noteq> c \<Longrightarrow> bused m' b = bused m b"
  shows "insert c F = {b \<in> B. \<not> bused m' b}"
proof (rule set_eqI)
  fix x
  show "(x \<in> insert c F) = (x \<in> {b \<in> B. \<not> bused m' b})"
    using assms by (cases "x = c") auto
qed

lemma live_of_insert_new:
  "\<not> bused m c' \<Longrightarrow> live_of m (insert c' B) = live_of m B"
  by (auto simp add: live_of_def)

lemma mymalloc_e_inv:
  assumes inv: "inv_e h bs fs"
  shows "\<exists>p h'. mymalloc_e r h = Some (p, h') \<and>
           segment_start h' = segment_start h \<and> segment_size h' = segment_size h \<and>
           (p = NULL \<and> h' = h \<or>
            p \<noteq> NULL \<and>
            (\<exists>bs' fs'. inv_e h' bs' fs' \<and>
                   live_of (mem h') (set bs') = insert p (live_of (mem h) (set bs)) \<and>
                   p \<notin> live_of (mem h) (set bs) \<and>
                   p - 8 \<in> set bs' \<and> unat r \<le> bsize (mem h') (p - 8)))"
proof (cases "r = 0 \<or> r > MAX_REQUEST_SIZE")
  case True
  then show ?thesis
    by (auto simp add: mymalloc_e_def)
next
  case False
  then have r: "r \<noteq> 0" "\<not> r > MAX_REQUEST_SIZE"
    by simp_all
  define needed where "needed = roundup_e r 8"
  note ru = roundup_e_props [of r, folded needed_def] roundup_e_small [OF r, folded needed_def]
  from inv have wf: "wf_blocks 16 h bs" and snz: "segment_start h \<noteq> 0"
    and half: "seg_end h \<le> 9223372036854775808"
    and d: "dll (mem h) 0 (free_start h) fs" and dist: "distinct fs"
    and fset: "set fs = {b \<in> set bs. \<not> bused (mem h) b}"
    by (simp_all add: inv_e_def)
  from wf have t: "tiles (mem h) bs (unat (segment_start h)) (seg_end h)"
    and sz: "\<And>b. b \<in> set bs \<Longrightarrow> 8 dvd bsize (mem h) b \<and> 16 \<le> bsize (mem h) b"
    by (simp_all add: wf_blocks_def)
  from find_fit_dll [OF d, of needed] obtain c where
    ff: "find_fit needed (free_start h) h = Some c"
    and calt: "c = 0 \<or> c \<in> set fs \<and> needed \<le> get_size h c"
    by blast
  show ?thesis
  proof (cases "c = 0")
    case True
    with False ff show ?thesis
      by (simp add: mymalloc_e_def needed_def)
  next
    case cnz: False
    with calt have cfs: "c \<in> set fs" and fit: "needed \<le> get_size h c"
      by simp_all
    from cfs fset have cbs: "c \<in> set bs" and cfree: "\<not> bused (mem h) c"
      by simp_all
    define S where "S = bsize (mem h) c"
    have NS: "unat needed \<le> S"
      using fit by (simp add: word_le_nat_alt unat_get_size S_def)
    have bnd: "unat c + 8 + S \<le> seg_end h"
      using tiles_bounds [OF t cbs] by (simp add: S_def)
    have Sok: "8 dvd S" "16 \<le> S"
      using sz [OF cbs] by (simp_all add: S_def)
    have gs: "unat (get_size h c) = S"
      by (simp add: unat_get_size S_def)
    have c8: "unat (c + 8) = unat c + 8" and pnz: "c + 8 \<noteq> 0"
      using live_of_bounds [OF wf cbs] by simp_all
    have fresh: "c + 8 \<notin> live_of (mem h) (set bs)"
      using cfree by (simp add: live_of_def)
    have fsub: "set fs \<subseteq> set bs"
      using fset by auto
    show ?thesis
    proof (cases "get_size h c < needed + 24")
      case True
      define h3 where
        "h3 = (set_used c (store c (get_size h c) h))\<lparr>nused := nused h + get_size h c\<rparr>"
      define h' where "h' = remove_free c h3"
      have g24: "unat (get_size h c + 24) = S + 24"
        using gs bnd half unat_plus [of "get_size h c" 24] by simp
      then have nosplit: "\<not> get_size h c + 24 \<le> get_size h c"
        using gs by (simp add: word_le_nat_alt)
      have res: "mymalloc_e r h = Some (c + 8, h')"
        using False ff cnz True nosplit
        by (simp add: mymalloc_e_def needed_def [symmetric] h'_def h3_def Let_def)
      have m3: "mem h3 = (mem h)(c := get_size h c OR 1)"
        by (simp add: h3_def)
      have f3: "free_start h3 = free_start h"
        by (simp add: h3_def)
      have seg: "segment_start h' = segment_start h" "segment_size h' = segment_size h"
        by (simp_all add: h'_def h3_def remove_free_eq)
      note sp = wf_sep [OF wf]
      have d3: "dll (mem h3) 0 (free_start h3) fs"
        using d dll_store_header [OF sp fsub cbs] by (simp add: m3 f3)
      have d': "dll (mem h') 0 (free_start h') (remove1 c fs)"
        unfolding h'_def using d3 dist cfs sep_apart [OF sp fsub] by (rule remove_free_dll)
      have hdr: "mem h' a = mem h3 a" if "a \<in> set bs" for a
        unfolding h'_def using sp fsub that d3 cfs dist by (rule remove_free_header)
      have ev: "even (unat (get_size h c))"
        using Sok(1) gs by auto
      have size_c: "bsize (mem h') c = S"
        using bsize_or_1 [OF ev, of "mem h'" c] gs hdr [OF cbs] by (simp add: m3)
      have used_c: "bused (mem h') c"
        using bused_or_1 [OF ev, of "mem h'" c] hdr [OF cbs] by (simp add: m3)
      have same: "mem h' b = mem h b" if "b \<in> set bs" "b \<noteq> c" for b
        using hdr [OF that(1)] that(2) by (simp add: m3)
      have wf': "wf_blocks 16 h' bs"
        using wf seg
      proof (rule wf_blocks_same)
        fix b assume "b \<in> set bs"
        then show "bsize (mem h') b = bsize (mem h) b"
          using size_c same [of b] by (cases "b = c") (simp_all add: S_def bsize_def)
      qed
      have live: "live_of (mem h') (set bs) = insert (c + 8) (live_of (mem h) (set bs))"
        using cbs cfree used_c
      proof (rule live_of_insert_used)
        fix b assume "b \<in> set bs" "b \<noteq> c"
        then show "bused (mem h') b = bused (mem h) b"
          by (simp add: bused_def same)
      qed
      have fset': "set (remove1 c fs) = {b \<in> set bs. \<not> bused (mem h') b}"
      proof -
        have "set (remove1 c fs) = set fs - {c}"
          using dist by simp
        also have "\<dots> = {b \<in> set bs. \<not> bused (mem h') b}"
          using fset used_c by (rule free_set_remove) (simp add: bused_def same)
        finally show ?thesis .
      qed
      have inv': "inv_e h' bs (remove1 c fs)"
        using wf' snz half d' dist fset' by (simp add: inv_e_def seg)
      have "unat r \<le> bsize (mem h') (c + 8 - 8)"
        using ru(3) NS size_c by simp
      with res seg pnz inv' live cbs fresh show ?thesis
        by auto
    next
      case False
      note nosplit = this
      define h3 where
        "h3 = (set_used c (store c needed h))\<lparr>nused := nused h + needed\<rparr>"
      define h4 where "h4 = remove_free c h3"
      define c' where "c' = get_next_header h4 c"
      define h5 where "h5 = store c' (get_size h c - needed - 8) h4"
      define h' where "h' = add_free c' h5"
      have n24: "unat (needed + 24) = unat needed + 24"
        using ru(4) unat_plus [of needed 24] by simp
      have lt: "unat needed + 24 \<le> S"
        using False n24 gs by (simp add: word_less_nat_alt)
      then have split: "needed + 24 \<le> get_size h c"
        using gs n24 by (simp add: word_le_nat_alt)
      have res: "mymalloc_e r h = Some (c + 8, h')"
        using \<open>\<not> (r = 0 \<or> r > MAX_REQUEST_SIZE)\<close> ff cnz nosplit split
        by (simp add: mymalloc_e_def needed_def [symmetric] h'_def h5_def c'_def h4_def h3_def Let_def)
      have m3: "mem h3 = (mem h)(c := needed OR 1)"
        by (simp add: h3_def)
      have f3: "free_start h3 = free_start h"
        by (simp add: h3_def)
      have seg: "segment_start h' = segment_start h" "segment_size h' = segment_size h"
        by (simp_all add: h'_def h5_def h4_def h3_def add_free_eq remove_free_eq)
      note sp0 = wf_sep [OF wf]
      have d3: "dll (mem h3) 0 (free_start h3) fs"
        using d dll_store_header [OF sp0 fsub cbs] by (simp add: m3 f3)
      have d4: "dll (mem h4) 0 (free_start h4) (remove1 c fs)"
        unfolding h4_def using d3 dist cfs sep_apart [OF sp0 fsub] by (rule remove_free_dll)
      have hdr4: "mem h4 a = mem h3 a" if "a \<in> set bs" for a
        unfolding h4_def using sp0 fsub that d3 cfs dist by (rule remove_free_header)
      have ev: "even (unat needed)"
        using ru(1) by auto
      have size4: "bsize (mem h4) c = unat needed"
        using bsize_or_1 [OF ev, of "mem h4" c] hdr4 [OF cbs] by (simp add: m3)
      have uc': "unat c' = unat c + 8 + unat needed"
        unfolding c'_def using size4 bnd half NS
        by (intro unat_next_header [THEN trans]) simp_all
      have sp: "sep (insert c' (set bs))" and c'_notin: "c' \<notin> set bs"
        using wf_sep_split [OF wf cbs uc' ru(2)] lt by (simp_all add: S_def)
      let ?N = "insert c' (set bs)"
      have rsub: "set (remove1 c fs) \<subseteq> ?N"
        using fsub dist by auto
      have m5: "mem h5 = (mem h4)(c' := get_size h c - needed - 8)"
        by (simp add: h5_def)
      have f5: "free_start h5 = free_start h4"
        by (simp add: h5_def)
      have d5: "dll (mem h5) 0 (free_start h5) (remove1 c fs)"
        using d4 dll_store_header [OF sp rsub, of c'] by (simp add: m5 f5)
      have c'nz: "c' \<noteq> 0"
        using uc' by auto
      have c'nf: "c' \<notin> set (remove1 c fs)"
        using c'_notin fsub dist by auto
      have d': "dll (mem h') 0 (free_start h') (c' # remove1 c fs)"
        unfolding h'_def using d5 _ c'nf c'nz
      proof (rule add_free_dll)
        show "distinct (remove1 c fs)" using dist by simp
        show "apart (insert c' (set (remove1 c fs)))"
          using sp by (rule sep_apart) (use rsub in auto)
      qed
      have hdr': "mem h' a = mem h5 a" if "a \<in> ?N" for a
        unfolding h'_def using sp rsub _ that d5 by (rule add_free_header) simp
      have rest: "unat (get_size h c - needed - 8) = S - unat needed - 8"
      proof -
        have "unat (get_size h c - needed) = S - unat needed"
          using NS gs unat_minus [of needed "get_size h c"] by simp
        moreover have "unat (8::64 word) \<le> unat (get_size h c - needed)"
          using calculation lt by simp
        ultimately show ?thesis
          using unat_minus [of 8 "get_size h c - needed"] by simp
      qed
      have "even (S - unat needed - 8)"
        using Sok(1) ru(1) lt by presburger
      then have ev': "even (unat (get_size h c - needed - 8))"
        by (simp only: rest)
      have cc': "c \<noteq> c'"
        using c'_notin cbs by auto
      have mc: "mem h' c = needed OR 1"
        using hdr' [of c] hdr4 [OF cbs] cbs cc' by (simp add: m5 m3)
      have mc': "mem h' c' = get_size h c - needed - 8"
        using hdr' [of c'] by (simp add: m5)
      have same: "mem h' b = mem h b" if "b \<in> set bs" "b \<noteq> c" for b
        using hdr' [of b] hdr4 [OF that(1)] that c'_notin by (auto simp add: m5 m3)
      have size_c: "bsize (mem h') c = unat needed"
        using bsize_or_1 [of needed "mem h'" c] ev mc by simp
      have used_c: "bused (mem h') c"
        using bused_or_1 [of needed "mem h'" c] ev mc by simp
      have size_c': "bsize (mem h') c' = S - unat needed - 8"
        using bsize_of_even [of "get_size h c - needed - 8" "mem h'" c'] ev' mc' rest by simp
      have free_c': "\<not> bused (mem h') c'"
        using bused_of_even [of "get_size h c - needed - 8" "mem h'" c'] ev' mc' by simp
      have "\<exists>bs'. wf_blocks 16 h' bs' \<and> set bs' = insert c' (set bs)"
        using wf cbs seg
      proof (rule wf_blocks_split)
        show "bsize (mem h') c = unat needed" by (rule size_c)
        show "8 dvd unat needed" by (rule ru(1))
        show "16 \<le> unat needed" by (rule ru(2))
        show "unat c' = unat c + 8 + unat needed" by (rule uc')
        show "bsize (mem h') c' + unat needed + 8 = bsize (mem h) c"
          using size_c' lt by (simp add: S_def)
        show "16 \<le> bsize (mem h') c'"
          using size_c' lt by simp
        fix b assume "b \<in> set bs" "b \<noteq> c"
        then show "bsize (mem h') b = bsize (mem h) b"
          using same [of b] by (simp add: bsize_def)
      qed
      then obtain bs' where wf': "wf_blocks 16 h' bs'" and set': "set bs' = insert c' (set bs)"
        by blast
      have "live_of (mem h') (insert c' (set bs)) = live_of (mem h') (set bs)"
        using free_c' by (rule live_of_insert_new)
      also have "\<dots> = insert (c + 8) (live_of (mem h) (set bs))"
        using cbs cfree used_c
      proof (rule live_of_insert_used)
        fix b assume "b \<in> set bs" "b \<noteq> c"
        then show "bused (mem h') b = bused (mem h) b"
          using same [of b] by (simp add: bused_def)
      qed
      finally have live: "live_of (mem h') (set bs') = insert (c + 8) (live_of (mem h) (set bs))"
        by (simp add: set')
      have fset': "set (c' # remove1 c fs) = {b \<in> set bs'. \<not> bused (mem h') b}"
      proof -
        have "set (c' # remove1 c fs) = insert c' (set fs - {c})"
          using dist by simp
        also have "\<dots> = insert c' {b \<in> set bs. \<not> bused (mem h') b}"
          using free_set_remove [OF fset used_c] same by (simp add: bused_def)
        also have "\<dots> = {b \<in> insert c' (set bs). \<not> bused (mem h') b}"
          using free_c' by auto
        finally show ?thesis by (simp add: set')
      qed
      have inv': "inv_e h' bs' (c' # remove1 c fs)"
        using wf' snz half d' dist c'nf fset' by (simp add: inv_e_def seg)
      have "unat r \<le> bsize (mem h') (c + 8 - 8)"
        using ru(3) size_c by simp
      with res seg pnz inv' live cbs set' fresh show ?thesis
        by auto
    qed
  qed
qed

section \<open>Merging a block with its free right neighbour\<close>

lemma header_add_even:
  assumes "even (unat t)" and "unat w + unat t < 18446744073709551616"
  shows "unat ((w + t) AND - 2) = unat (w AND - 2) + unat t"
    and "((w + t) AND 1 \<noteq> 0) = (w AND 1 \<noteq> (0 :: 64 word))"
proof -
  have u: "unat (w + t) = unat w + unat t"
    using assms(2) by (rule unat_plus)
  show "unat ((w + t) AND - 2) = unat (w AND - 2) + unat t"
    using assms(1) unfolding unat_and_m2 u by presburger
  show "((w + t) AND 1 \<noteq> 0) = (w AND 1 \<noteq> 0)"
    using assms(1) unfolding and_1_neq_0 u by simp
qed

lemma wf_blocks_merge:
  assumes wf: "wf_blocks k h (xs @ b # n # ys)"
    and seg: "segment_start h' = segment_start h" "segment_size h' = segment_size h"
    and same: "\<And>x. x \<in> set (xs @ b # ys) \<Longrightarrow> x \<noteq> b \<Longrightarrow> bsize (mem h') x = bsize (mem h) x"
    and b: "bsize (mem h') b = bsize (mem h) b + 8 + bsize (mem h) n"
  shows "wf_blocks k h' (xs @ b # ys)"
proof -
  let ?bs = "xs @ b # n # ys"
  from wf have t: "tiles (mem h) ?bs (unat (segment_start h)) (seg_end h)"
    and e: "seg_end h < 18446744073709551616"
    unfolding wf_blocks_def by blast+
  from wf have sz: "\<And>x. x \<in> set ?bs \<Longrightarrow> 8 dvd bsize (mem h) x \<and> k \<le> bsize (mem h) x"
    unfolding wf_blocks_def by blast
  have d: "distinct ?bs"
    using t by (rule tiles_distinct)
  from t obtain a where xs: "tiles (mem h) xs (unat (segment_start h)) a"
    and bys: "tiles (mem h) (b # n # ys) a (seg_end h)"
    by (auto simp add: tiles_append)
  from bys have ub: "unat b = a" and un: "unat n = a + 8 + bsize (mem h) b"
    and ys: "tiles (mem h) ys (unat n + 8 + bsize (mem h) n) (seg_end h)"
    by simp_all
  have xs': "tiles (mem h') xs (unat (segment_start h)) a"
    using xs d same by (subst tiles_cong [of xs "mem h'" "mem h"]) auto
  have ys0: "tiles (mem h') ys (unat n + 8 + bsize (mem h) n) (seg_end h)"
    using ys d same by (subst tiles_cong [of ys "mem h'" "mem h"]) auto
  have eq: "a + 8 + bsize (mem h') b = unat n + 8 + bsize (mem h) n"
    using un b by simp
  have "tiles (mem h') ys (a + 8 + bsize (mem h') b) (seg_end h)"
    unfolding eq by (rule ys0)
  then have "tiles (mem h') (b # ys) a (seg_end h)"
    using ub by simp
  with xs' have t': "tiles (mem h') (xs @ b # ys) (unat (segment_start h)) (seg_end h)"
    by (auto simp add: tiles_append)
  have "8 dvd bsize (mem h') x \<and> k \<le> bsize (mem h') x" if x: "x \<in> set (xs @ b # ys)" for x
  proof (cases "x = b")
    case True
    from sz [of b] sz [of n] show ?thesis
      unfolding True b by simp
  next
    case False
    from same [OF x False] sz [of x] x show ?thesis by auto
  qed
  with t' e seg show ?thesis
    by (simp add: wf_blocks_def)
qed

text \<open>One round of the loops in \<^verbatim>\<open>myfree\<close> and \<^verbatim>\<open>myrealloc\<close>.\<close>

definition merge_step :: "addr \<Rightarrow> addr \<Rightarrow> eheap \<Rightarrow> eheap" where
  "merge_step header neighbor h =
     (let h = remove_free neighbor h
      in store header (load h header + (get_size h neighbor + ALIGNMENT)) h)"

lemma merge_step_inv:
  assumes inv: "inv_e h (xs @ b # n # ys) fs" and nfree: "\<not> bused (mem h) n"
  defines "h' \<equiv> merge_step b n h"
  shows "inv_e h' (xs @ b # ys) (remove1 n fs)"
    and "bused (mem h') b = bused (mem h) b"
    and "bsize (mem h') b = bsize (mem h) b + 8 + bsize (mem h) n"
    and "mem h' n = mem h n"
    and "segment_start h' = segment_start h" and "segment_size h' = segment_size h"
    and "nused h' = nused h"
    and "live_of (mem h') (set (xs @ b # ys)) = live_of (mem h) (set (xs @ b # n # ys))"
proof -
  let ?bs = "xs @ b # n # ys"
  from inv have wf: "wf_blocks 16 h ?bs" and snz: "segment_start h \<noteq> 0"
    and half: "seg_end h \<le> 9223372036854775808"
    and d: "dll (mem h) 0 (free_start h) fs" and dist: "distinct fs"
    and fset: "set fs = {x \<in> set ?bs. \<not> bused (mem h) x}"
    by (simp_all add: inv_e_def)
  from wf have t: "tiles (mem h) ?bs (unat (segment_start h)) (seg_end h)"
    by (simp add: wf_blocks_def)
  have db: "distinct ?bs"
    using t by (rule tiles_distinct)
  have nfs: "n \<in> set fs"
    using fset nfree by simp
  have fsub: "set fs \<subseteq> set ?bs"
    using fset by auto
  note sp = wf_sep [OF wf]
  define h1 where "h1 = remove_free n h"
  have h': "h' = store b (mem h1 b + (get_size h1 n + 8)) h1"
    by (simp add: h'_def merge_step_def h1_def Let_def)
  have d1: "dll (mem h1) 0 (free_start h1) (remove1 n fs)"
    unfolding h1_def using d dist nfs sep_apart [OF sp fsub] by (rule remove_free_dll)
  have hdr1: "mem h1 a = mem h a" if "a \<in> set ?bs" for a
    unfolding h1_def using sp fsub that d nfs dist by (rule remove_free_header)
  have gsn: "get_size h1 n = get_size h n"
    using hdr1 [of n] by (simp add: get_size_def)
  have m': "mem h' = (mem h1)(b := mem h b + (get_size h n + 8))"
    using hdr1 [of b] by (simp add: h' gsn)
  show seg: "segment_start h' = segment_start h" "segment_size h' = segment_size h"
    by (simp_all add: h' h1_def remove_free_eq)
  show "nused h' = nused h"
    by (simp add: h' h1_def remove_free_eq)
  have bn: "b \<noteq> n"
    using db by auto
  show mn: "mem h' n = mem h n"
    using hdr1 [of n] bn by (simp add: m')
  have same: "mem h' x = mem h x" if "x \<in> set ?bs" "x \<noteq> b" for x
    using hdr1 [OF that(1)] that(2) by (simp add: m')
  from t obtain a where bys: "tiles (mem h) (b # n # ys) a (seg_end h)"
    by (auto simp add: tiles_append)
  then have un: "unat n = unat b + 8 + bsize (mem h) b"
    by simp
  have nend: "unat n + 8 + bsize (mem h) n \<le> seg_end h"
    using tiles_bounds [OF t, of n] by simp
  have ut: "unat (get_size h n + 8) = bsize (mem h) n + 8"
    using nend half unat_plus [of "get_size h n" 8] by (simp add: unat_get_size)
  have evt: "even (unat (get_size h n + 8))"
    unfolding ut using bsize_even [of "mem h" n] by simp
  have "unat (mem h b) \<le> bsize (mem h) b + 1"
    by (simp add: bsize_def unat_and_m2)
  then have nov: "unat (mem h b) + unat (get_size h n + 8) < 18446744073709551616"
    using ut un nend half by simp
  note ha = header_add_even [OF evt nov]
  show sb: "bsize (mem h') b = bsize (mem h) b + 8 + bsize (mem h) n"
    using ha(1) ut by (simp add: m' bsize_def)
  show ub: "bused (mem h') b = bused (mem h) b"
    using ha(2) by (simp add: m' bused_def)
  have wf': "wf_blocks 16 h' (xs @ b # ys)"
    using wf seg
  proof (rule wf_blocks_merge)
    show "bsize (mem h') b = bsize (mem h) b + 8 + bsize (mem h) n"
      by (rule sb)
    fix x assume "x \<in> set (xs @ b # ys)" "x \<noteq> b"
    then show "bsize (mem h') x = bsize (mem h) x"
      using same [of x] by (auto simp add: bsize_def)
  qed
  have used_same: "bused (mem h') x = bused (mem h) x" if "x \<in> set ?bs" for x
    using same [OF that] ub by (cases "x = b") (simp_all add: bused_def)
  have d': "dll (mem h') 0 (free_start h') (remove1 n fs)"
  proof -
    have "set (remove1 n fs) \<subseteq> set ?bs"
      using fsub dist by auto
    from dll_store_header [OF sp this, of b] d1 show ?thesis
      by (simp add: m' h')
  qed
  have bsset: "set (xs @ b # ys) = set ?bs - {n}"
    using db by auto
  have fset': "set (remove1 n fs) = {x \<in> set (xs @ b # ys). \<not> bused (mem h') x}"
  proof -
    have "set (remove1 n fs) = set fs - {n}"
      using dist by simp
    also have "\<dots> = {x \<in> set (xs @ b # ys). \<not> bused (mem h') x}"
      unfolding bsset fset using used_same by auto
    finally show ?thesis .
  qed
  show "inv_e h' (xs @ b # ys) (remove1 n fs)"
    using wf' snz half d' dist fset' by (simp add: inv_e_def seg)
  show "live_of (mem h') (set (xs @ b # ys)) = live_of (mem h) (set ?bs)"
    unfolding bsset using used_same nfree by (auto simp add: live_of_def)
qed

section \<open>The coalescing loop and \<^verbatim>\<open>myfree\<close> of the explicit allocator\<close>

lemma coalesce_unfold:
  "coalesce b n h =
     (if \<not> is_past_end h n \<and> \<not> is_used h n
      then coalesce b (get_next_header (merge_step b n h) n) (merge_step b n h)
      else Some h)"
  by (subst coalesce.simps) (simp add: merge_step_def Let_def)

lemma absorb_unfold:
  "absorb new b n h =
     (if \<not> is_past_end h n \<and> \<not> is_used h n
      then (if get_size (merge_step b n h) b \<ge> new then Some (True, merge_step b n h)
            else absorb new b (get_next_header (merge_step b n h) n) (merge_step b n h))
      else Some (False, h))"
  by (subst absorb.simps) (simp add: merge_step_def Let_def)

text \<open>In a well-formed heap the block behind \<open>b\<close> is the next in the list, or the segment ends.\<close>

lemma inv_e_neighbour:
  assumes inv: "inv_e h (xs @ b # ys) fs"
  shows "ys = [] \<Longrightarrow> is_past_end h (get_next_header h b)"
    and "ys = n # ys' \<Longrightarrow> get_next_header h b = n \<and> \<not> is_past_end h n"
proof -
  from inv have t: "tiles (mem h) (xs @ b # ys) (unat (segment_start h)) (seg_end h)"
    and e: "seg_end h < 18446744073709551616"
    by (simp_all add: inv_e_def wf_blocks_def)
  from t obtain a where bys: "tiles (mem h) (b # ys) a (seg_end h)"
    by (auto simp add: tiles_append)
  note nh = tiles_next_header [OF bys e]
  show "is_past_end h (get_next_header h b)" if "ys = []"
    using nh(2) e that by (simp add: is_past_end_unat)
  show "get_next_header h b = n \<and> \<not> is_past_end h n" if "ys = n # ys'"
  proof -
    from nh(2) that have "unat n = unat (get_next_header h b)" by simp
    then have eq: "get_next_header h b = n"
      by (simp add: word_of_unat_eq)
    have "unat n + 8 + bsize (mem h) n \<le> seg_end h"
      using tiles_bounds [OF t, of n] that by simp
    then show ?thesis
      using eq e by (simp add: is_past_end_unat)
  qed
qed

lemma merge_step_next:
  assumes inv: "inv_e h (xs @ b # n # ys) fs" and nfree: "\<not> bused (mem h) n"
  shows "get_next_header (merge_step b n h) n = get_next_header (merge_step b n h) b"
proof -
  define h' where "h' = merge_step b n h"
  note ms = merge_step_inv [OF inv nfree, folded h'_def]
  from inv have t: "tiles (mem h) (xs @ b # n # ys) (unat (segment_start h)) (seg_end h)"
    and e: "seg_end h < 18446744073709551616"
    by (simp_all add: inv_e_def wf_blocks_def)
  from t obtain a where bys: "tiles (mem h) (b # n # ys) a (seg_end h)"
    by (auto simp add: tiles_append)
  then have un: "unat n = unat b + 8 + bsize (mem h) b"
    by simp
  have nend: "unat n + 8 + bsize (mem h) n \<le> seg_end h"
    using tiles_bounds [OF t, of n] by simp
  have sn: "bsize (mem h') n = bsize (mem h) n"
    using ms(4) by (simp add: bsize_def)
  have 1: "unat (get_next_header h' n) = unat n + 8 + bsize (mem h') n"
    using nend e sn by (intro unat_next_header) simp
  have 2: "unat (get_next_header h' b) = unat b + 8 + bsize (mem h') b"
    using nend e un ms(3) by (intro unat_next_header) simp
  have "unat (get_next_header h' n) = unat (get_next_header h' b)"
    unfolding 1 2 using un sn ms(3) by simp
  then show ?thesis
    unfolding h'_def by (rule word_of_unat_eq)
qed

lemma coalesce_inv:
  assumes "inv_e h (xs @ b # ys) fs"
  shows "\<exists>h' ys' fs'. coalesce b (get_next_header h b) h = Some h' \<and>
           inv_e h' (xs @ b # ys') fs' \<and>
           bused (mem h') b = bused (mem h) b \<and>
           live_of (mem h') (set (xs @ b # ys')) = live_of (mem h) (set (xs @ b # ys)) \<and>
           segment_start h' = segment_start h \<and> segment_size h' = segment_size h \<and>
           nused h' = nused h \<and>
           (is_past_end h' (get_next_header h' b) \<or> is_used h' (get_next_header h' b))"
  using assms
proof (induction ys arbitrary: h fs)
  case Nil
  from inv_e_neighbour(1) [OF Nil] have pe: "is_past_end h (get_next_header h b)"
    by simp
  then have "coalesce b (get_next_header h b) h = Some h"
    by (subst coalesce_unfold) simp
  with Nil pe show ?case
    by blast
next
  case (Cons n ys)
  from inv_e_neighbour(2) [OF Cons.prems] have nb: "get_next_header h b = n"
    and npe: "\<not> is_past_end h n"
    by simp_all
  show ?case
  proof (cases "is_used h n")
    case True
    with npe have "coalesce b n h = Some h"
      by (subst coalesce_unfold) simp
    with Cons.prems True nb show ?thesis
      by (metis (no_types, lifting))
  next
    case False
    then have nfree: "\<not> bused (mem h) n"
      by (simp add: is_used_bused)
    define h1 where "h1 = merge_step b n h"
    note ms = merge_step_inv [OF Cons.prems nfree, folded h1_def]
    have nx: "get_next_header h1 n = get_next_header h1 b"
      unfolding h1_def using Cons.prems nfree by (rule merge_step_next)
    have step: "coalesce b n h = coalesce b (get_next_header h1 b) h1"
      using npe False by (subst coalesce_unfold) (simp add: h1_def [symmetric] nx)
    from Cons.IH [OF ms(1)] obtain h' ys' fs' where
      "coalesce b (get_next_header h1 b) h1 = Some h'" "inv_e h' (xs @ b # ys') fs'"
      "bused (mem h') b = bused (mem h1) b"
      "live_of (mem h') (set (xs @ b # ys')) = live_of (mem h1) (set (xs @ b # ys))"
      "segment_start h' = segment_start h1" "segment_size h' = segment_size h1"
      "nused h' = nused h1"
      "is_past_end h' (get_next_header h' b) \<or> is_used h' (get_next_header h' b)"
      by blast
    with step ms nb show ?thesis
      by (metis (no_types, lifting))
  qed
qed

lemma absorb_inv:
  assumes "inv_e h (xs @ b # ys) fs"
  shows "\<exists>g h' ys' fs'. absorb new b (get_next_header h b) h = Some (g, h') \<and>
           inv_e h' (xs @ b # ys') fs' \<and>
           bused (mem h') b = bused (mem h) b \<and>
           live_of (mem h') (set (xs @ b # ys')) = live_of (mem h) (set (xs @ b # ys)) \<and>
           segment_start h' = segment_start h \<and> segment_size h' = segment_size h \<and>
           nused h' = nused h \<and>
           (g \<longrightarrow> new \<le> get_size h' b)"
  using assms
proof (induction ys arbitrary: h fs)
  case Nil
  from inv_e_neighbour(1) [OF Nil] have pe: "is_past_end h (get_next_header h b)"
    by simp
  then have "absorb new b (get_next_header h b) h = Some (False, h)"
    by (subst absorb_unfold) simp
  with Nil show ?case
    by blast
next
  case (Cons n ys)
  from inv_e_neighbour(2) [OF Cons.prems] have nb: "get_next_header h b = n"
    and npe: "\<not> is_past_end h n"
    by simp_all
  show ?case
  proof (cases "is_used h n")
    case True
    with npe have "absorb new b n h = Some (False, h)"
      by (subst absorb_unfold) simp
    with Cons.prems nb show ?thesis
      by (metis (no_types, lifting))
  next
    case False
    then have nfree: "\<not> bused (mem h) n"
      by (simp add: is_used_bused)
    define h1 where "h1 = merge_step b n h"
    note ms = merge_step_inv [OF Cons.prems nfree, folded h1_def]
    have nx: "get_next_header h1 n = get_next_header h1 b"
      unfolding h1_def using Cons.prems nfree by (rule merge_step_next)
    show ?thesis
    proof (cases "new \<le> get_size h1 b")
      case True
      with npe False have "absorb new b n h = Some (True, h1)"
        by (subst absorb_unfold) (simp add: h1_def [symmetric])
      with ms nb True show ?thesis
        by (metis (no_types, lifting))
    next
      case nofit: False
      with npe False have step: "absorb new b n h = absorb new b (get_next_header h1 b) h1"
        by (subst absorb_unfold) (simp add: h1_def [symmetric] nx)
      from Cons.IH [OF ms(1)] obtain g h' ys' fs' where
        "absorb new b (get_next_header h1 b) h1 = Some (g, h')" "inv_e h' (xs @ b # ys') fs'"
        "bused (mem h') b = bused (mem h1) b"
        "live_of (mem h') (set (xs @ b # ys')) = live_of (mem h1) (set (xs @ b # ys))"
        "segment_start h' = segment_start h1" "segment_size h' = segment_size h1"
        "nused h' = nused h1"
        "g \<longrightarrow> new \<le> get_size h' b"
        by blast
      with step ms nb show ?thesis
        by (metis (no_types, lifting))
    qed
  qed
qed

lemma myfree_e_inv:
  assumes inv: "inv_e h bs fs" and p: "p \<in> live_of (mem h) (set bs)"
  shows "\<exists>h' bs' fs'. myfree_e p h = Some h' \<and> inv_e h' bs' fs' \<and>
           live_of (mem h') (set bs') = live_of (mem h) (set bs) - {p} \<and>
           segment_start h' = segment_start h \<and> segment_size h' = segment_size h \<and>
           get_header p \<in> set bs' \<and> \<not> is_used h' (get_header p) \<and>
           (is_past_end h' (get_next_header h' (get_header p)) \<or>
            is_used h' (get_next_header h' (get_header p)))"
proof -
  from inv have wf: "wf_blocks 16 h bs" and snz: "segment_start h \<noteq> 0"
    and half: "seg_end h \<le> 9223372036854775808"
    and d: "dll (mem h) 0 (free_start h) fs" and dist: "distinct fs"
    and fset: "set fs = {b \<in> set bs. \<not> bused (mem h) b}"
    by (simp_all add: inv_e_def)
  from p obtain b where b: "b \<in> set bs" "bused (mem h) b" "p = b + 8"
    by (auto simp add: live_of_def)
  have pnz: "p \<noteq> 0"
    using live_of_nonzero [OF wf] p by auto
  have hp: "get_header p = b"
    by (simp add: get_header_def b(3))
  define h2 where "h2 = set_free b (h\<lparr>nused := nused h - get_size h b\<rparr>)"
  define h3 where "h3 = add_free b h2"
  have res: "myfree_e p h = coalesce b (get_next_header h3 b) h3"
    using pnz by (simp add: myfree_e_def hp Let_def h3_def h2_def)
  have m2: "mem h2 = (mem h)(b := mem h b AND - 2)"
    by (simp add: h2_def)
  have f2: "free_start h2 = free_start h"
    by (simp add: h2_def)
  have seg3: "segment_start h3 = segment_start h" "segment_size h3 = segment_size h"
    by (simp_all add: h3_def h2_def add_free_eq)
  note sp = wf_sep [OF wf]
  have fsub: "set fs \<subseteq> set bs"
    using fset by auto
  have b_notin: "b \<notin> set fs"
    using fset b(2) by simp
  have bnz: "b \<noteq> 0"
    using wf snz b(1) by (rule wf_nonzero)
  have d2: "dll (mem h2) 0 (free_start h2) fs"
    using d dll_store_header [OF sp fsub b(1)] by (simp add: m2 f2)
  have d3: "dll (mem h3) 0 (free_start h3) (b # fs)"
    unfolding h3_def using d2 dist b_notin bnz
  proof (rule add_free_dll)
    show "apart (insert b (set fs))"
      using sp by (rule sep_apart) (use fsub b(1) in auto)
  qed
  have hdr3: "mem h3 a = mem h2 a" if "a \<in> set bs" for a
    unfolding h3_def using sp fsub b(1) that d2 by (rule add_free_header)
  have mb: "mem h3 b = mem h b AND - 2"
    using hdr3 [OF b(1)] by (simp add: m2)
  have same: "mem h3 x = mem h x" if "x \<in> set bs" "x \<noteq> b" for x
    using hdr3 [OF that(1)] that(2) by (simp add: m2)
  have size_same: "bsize (mem h3) x = bsize (mem h) x" if "x \<in> set bs" for x
    using same [OF that] mb by (cases "x = b") (simp_all add: bsize_def and.assoc)
  have free_b: "\<not> bused (mem h3) b"
    by (rule bused_and_not_1 [of _ _ "mem h"]) (simp add: mb)
  have wf3: "wf_blocks 16 h3 bs"
    using wf seg3 size_same by (rule wf_blocks_same)
  have fset3: "set (b # fs) = {x \<in> set bs. \<not> bused (mem h3) x}"
    using free_set_add [OF fset free_b b(1)] same by (simp add: bused_def)
  have inv3: "inv_e h3 bs (b # fs)"
    using wf3 snz half d3 dist b_notin fset3 by (simp add: inv_e_def seg3)
  have live3: "live_of (mem h3) (set bs) = live_of (mem h) (set bs) - {p}"
    unfolding b(3) using b(2) free_b
  proof (rule live_of_remove_used)
    fix x assume "x \<in> set bs" "x \<noteq> b"
    then show "bused (mem h3) x = bused (mem h) x"
      using same [of x] by (simp add: bused_def)
  qed
  from b(1) obtain xs ys where bs: "bs = xs @ b # ys"
    by (auto dest: split_list)
  from coalesce_inv [OF inv3 [unfolded bs]] obtain h' ys' fs' where
    c: "coalesce b (get_next_header h3 b) h3 = Some h'" "inv_e h' (xs @ b # ys') fs'"
    "bused (mem h') b = bused (mem h3) b"
    "live_of (mem h') (set (xs @ b # ys')) = live_of (mem h3) (set (xs @ b # ys))"
    "segment_start h' = segment_start h3" "segment_size h' = segment_size h3"
    "is_past_end h' (get_next_header h' b) \<or> is_used h' (get_next_header h' b)"
    by blast
  have "\<not> is_used h' b"
    using c(3) free_b by (simp add: is_used_bused)
  with res c live3 seg3 show ?thesis
    unfolding hp bs by (intro exI [of _ h'] exI [of _ "xs @ b # ys'"] exI [of _ fs']) simp
qed

lemma myfree_e_null: "myfree_e NULL h = Some h"
  by (simp add: myfree_e_def)

section \<open>\<^verbatim>\<open>myrealloc\<close> of the explicit allocator\<close>

lemma inv_e_nused [simp]: "inv_e (h\<lparr>nused := v\<rparr>) bs fs = inv_e h bs fs"
  by (simp add: inv_e_def wf_blocks_def)

text \<open>The body of the in-place case: the block keeps \<open>new_size\<close> bytes, the rest is a new free block.\<close>

definition shrink :: "addr \<Rightarrow> size_t \<Rightarrow> size_t \<Rightarrow> eheap \<Rightarrow> eheap" where
  "shrink old_header old_size new_size h =
     (if old_size \<ge> new_size + 3 * ALIGNMENT then
        (let h = store old_header new_size h;
             h = set_used old_header h;
             new_free = get_next_header h old_header;
             h = store new_free (old_size - new_size - ALIGNMENT) h
         in add_free new_free h)
      else h)"

lemma shrink_inv:
  assumes inv: "inv_e h bs fs" and b: "b \<in> set bs" "bused (mem h) b"
    and new: "8 dvd unat new" "16 \<le> unat new" "new \<le> get_size h b"
  defines "h' \<equiv> shrink b (get_size h b) new h"
  shows "\<exists>bs' fs'. inv_e h' bs' fs' \<and> b \<in> set bs' \<and>
           live_of (mem h') (set bs') = live_of (mem h) (set bs)"
    and "segment_start h' = segment_start h" and "segment_size h' = segment_size h"
proof -
  from inv have wf: "wf_blocks 16 h bs" and snz: "segment_start h \<noteq> 0"
    and half: "seg_end h \<le> 9223372036854775808"
    and d: "dll (mem h) 0 (free_start h) fs" and dist: "distinct fs"
    and fset: "set fs = {b \<in> set bs. \<not> bused (mem h) b}"
    by (simp_all add: inv_e_def)
  from wf have t: "tiles (mem h) bs (unat (segment_start h)) (seg_end h)"
    unfolding wf_blocks_def by blast
  from wf have sz: "\<And>b. b \<in> set bs \<Longrightarrow> 8 dvd bsize (mem h) b \<and> 16 \<le> bsize (mem h) b"
    unfolding wf_blocks_def by blast
  define S where "S = bsize (mem h) b"
  have NS: "unat new \<le> S"
    using new(3) by (simp add: word_le_nat_alt unat_get_size S_def)
  have bnd: "unat b + 8 + S \<le> seg_end h"
    using tiles_bounds [OF t b(1)] by (simp add: S_def)
  have Sok: "8 dvd S" "16 \<le> S"
    using sz [OF b(1)] by (simp_all add: S_def)
  have gs: "unat (get_size h b) = S"
    by (simp add: unat_get_size S_def)
  have n24: "unat (new + 24) = unat new + 24"
    using NS bnd half unat_plus [of new 24] by simp
  have fsub: "set fs \<subseteq> set bs"
    using fset by auto
  show seg: "segment_start h' = segment_start h" "segment_size h' = segment_size h"
    by (simp_all add: h'_def shrink_def Let_def add_free_eq)
  show "\<exists>bs' fs'. inv_e h' bs' fs' \<and> b \<in> set bs' \<and>
           live_of (mem h') (set bs') = live_of (mem h) (set bs)"
  proof (cases "new + 24 \<le> get_size h b")
    case False
    then have "h' = h"
      by (simp add: h'_def shrink_def)
    with inv b(1) show ?thesis by blast
  next
    case True
    then have lt: "unat new + 24 \<le> S"
      using n24 gs by (simp add: word_le_nat_alt)
    define h2 where "h2 = set_used b (store b new h)"
    define c' where "c' = get_next_header h2 b"
    define h3 where "h3 = store c' (get_size h b - new - 8) h2"
    have h': "h' = add_free c' h3"
      using True by (simp add: h'_def shrink_def Let_def h3_def c'_def h2_def)
    have m2: "mem h2 = (mem h)(b := new OR 1)"
      by (simp add: h2_def)
    have f2: "free_start h2 = free_start h"
      by (simp add: h2_def)
    have ev: "even (unat new)"
      using new(1) by auto
    have size2: "bsize (mem h2) b = unat new"
      using bsize_or_1 [of new "mem h2" b] ev by (simp add: m2)
    have uc': "unat c' = unat b + 8 + unat new"
      unfolding c'_def using size2 bnd half NS
      by (intro unat_next_header [THEN trans]) simp_all
    have sp: "sep (insert c' (set bs))" and c'_notin: "c' \<notin> set bs"
      using wf_sep_split [OF wf b(1) uc' new(2)] lt by (simp_all add: S_def)
    let ?N = "insert c' (set bs)"
    have fsubN: "set fs \<subseteq> ?N"
      using fsub by auto
    have d2: "dll (mem h2) 0 (free_start h2) fs"
      using d dll_store_header [OF sp fsubN, of b] b(1) by (simp add: m2 f2)
    have m3: "mem h3 = (mem h2)(c' := get_size h b - new - 8)"
      by (simp add: h3_def)
    have f3: "free_start h3 = free_start h2"
      by (simp add: h3_def)
    have d3: "dll (mem h3) 0 (free_start h3) fs"
      using d2 dll_store_header [OF sp fsubN, of c'] by (simp add: m3 f3)
    have c'nz: "c' \<noteq> 0"
      using uc' by auto
    have c'nf: "c' \<notin> set fs"
      using c'_notin fsub by auto
    have d': "dll (mem h') 0 (free_start h') (c' # fs)"
      unfolding h' using d3 dist c'nf c'nz
    proof (rule add_free_dll)
      show "apart (insert c' (set fs))"
        using sp by (rule sep_apart) (use fsub in auto)
    qed
    have hdr': "mem h' a = mem h3 a" if "a \<in> ?N" for a
      unfolding h' using sp fsubN _ that d3 by (rule add_free_header) simp
    have rest: "unat (get_size h b - new - 8) = S - unat new - 8"
    proof -
      have "unat (get_size h b - new) = S - unat new"
        using NS gs unat_minus [of new "get_size h b"] by simp
      moreover have "unat (8::64 word) \<le> unat (get_size h b - new)"
        using calculation lt by simp
      ultimately show ?thesis
        using unat_minus [of 8 "get_size h b - new"] by simp
    qed
    have "even (S - unat new - 8)"
      using Sok(1) new(1) lt by presburger
    then have ev': "even (unat (get_size h b - new - 8))"
      by (simp only: rest)
    have bc': "b \<noteq> c'"
      using c'_notin b(1) by auto
    have mb: "mem h' b = new OR 1"
      using hdr' [of b] b(1) bc' by (simp add: m3 m2)
    have mc': "mem h' c' = get_size h b - new - 8"
      using hdr' [of c'] by (simp add: m3)
    have same: "mem h' x = mem h x" if "x \<in> set bs" "x \<noteq> b" for x
      using hdr' [of x] that c'_notin by (auto simp add: m3 m2)
    have size_b: "bsize (mem h') b = unat new"
      using bsize_or_1 [of new "mem h'" b] ev mb by simp
    have used_b: "bused (mem h') b"
      using bused_or_1 [of new "mem h'" b] ev mb by simp
    have size_c': "bsize (mem h') c' = S - unat new - 8"
      using bsize_of_even [of "get_size h b - new - 8" "mem h'" c'] ev' mc' rest by simp
    have free_c': "\<not> bused (mem h') c'"
      using bused_of_even [of "get_size h b - new - 8" "mem h'" c'] ev' mc' by simp
    have "\<exists>bs'. wf_blocks 16 h' bs' \<and> set bs' = insert c' (set bs)"
      using wf b(1) seg
    proof (rule wf_blocks_split)
      show "bsize (mem h') b = unat new" by (rule size_b)
      show "8 dvd unat new" by (rule new(1))
      show "16 \<le> unat new" by (rule new(2))
      show "unat c' = unat b + 8 + unat new" by (rule uc')
      show "bsize (mem h') c' + unat new + 8 = bsize (mem h) b"
        using size_c' lt by (simp add: S_def)
      show "16 \<le> bsize (mem h') c'"
        using size_c' lt by simp
      fix x assume "x \<in> set bs" "x \<noteq> b"
      then show "bsize (mem h') x = bsize (mem h) x"
        using same [of x] by (simp add: bsize_def)
    qed
    then obtain bs' where wf': "wf_blocks 16 h' bs'" and set': "set bs' = insert c' (set bs)"
      by blast
    have used_same: "bused (mem h') x = bused (mem h) x" if "x \<in> set bs" for x
      using same [OF that] used_b b(2) by (cases "x = b") (simp_all add: bused_def)
    have live: "live_of (mem h') (set bs') = live_of (mem h) (set bs)"
      unfolding set' live_of_insert_new [OF free_c'] using used_same
      by (auto simp add: live_of_def)
    have fset': "set (c' # fs) = {x \<in> set bs'. \<not> bused (mem h') x}"
      unfolding set' using fset free_c' used_same by auto
    have inv': "inv_e h' bs' (c' # fs)"
      using wf' snz half d' dist c'nf fset' by (simp add: inv_e_def seg)
    from inv' live set' b(1) show ?thesis
      by auto
  qed
qed

text \<open>Copying into the payload of a used block touches no header and no link.\<close>

lemma memcpy_inv:
  fixes src :: addr
  assumes inv: "inv_e h bs fs" and c: "c \<in> set bs" "bused (mem h) c"
    and cnt: "unat cnt \<le> bsize (mem h) c"
  defines "h' \<equiv> memcpy (c + 8) src cnt h"
  shows "inv_e h' bs fs" and "live_of (mem h') (set bs) = live_of (mem h) (set bs)"
    and "\<And>x. x \<in> set bs \<Longrightarrow> mem h' x = mem h x"
proof -
  from inv have wf: "wf_blocks 16 h bs" and snz: "segment_start h \<noteq> 0"
    and half: "seg_end h \<le> 9223372036854775808"
    and d: "dll (mem h) 0 (free_start h) fs" and dist: "distinct fs"
    and fset: "set fs = {b \<in> set bs. \<not> bused (mem h) b}"
    by (simp_all add: inv_e_def)
  from wf have t: "tiles (mem h) bs (unat (segment_start h)) (seg_end h)"
    unfolding wf_blocks_def by blast
  from wf have sz: "\<And>b. b \<in> set bs \<Longrightarrow> 8 dvd bsize (mem h) b \<and> 16 \<le> bsize (mem h) b"
    unfolding wf_blocks_def by blast
  have uc: "unat (c + 8) = unat c + 8"
    using live_of_bounds(1) [OF wf c(1)] .
  have bc: "unat c + 8 + bsize (mem h) c \<le> seg_end h"
    using tiles_bounds [OF t c(1)] by simp
  have outside: "mem h' a = mem h a"
    if "unat a < unat c + 8 \<or> unat c + 8 + bsize (mem h) c \<le> unat a" for a
    unfolding h'_def
  proof (rule memcpy_frame)
    show "unat (c + 8) + unat cnt \<le> 18446744073709551616"
      using uc bc half cnt by simp
    show "unat a < unat (c + 8) \<or> unat (c + 8) + unat cnt \<le> unat a"
      using that uc cnt by auto
  qed
  show hdr: "mem h' x = mem h x" if "x \<in> set bs" for x
    using tiles_inside [OF t c(1) that] by (intro outside) auto
  have link: "mem h' (f + 8) = mem h (f + 8) \<and> mem h' (f + 16) = mem h (f + 16)"
    if f: "f \<in> set fs" for f
  proof -
    from f fset c(2) have fb: "f \<in> set bs" and fc: "f \<noteq> c"
      by auto
    have u: "unat (f + 8) = unat f + 8" "unat (f + 16) = unat f + 16"
      using sep_unat [OF wf_sep [OF wf] fb] by simp_all
    have "unat f \<noteq> unat c"
      using fc word_of_unat_eq by blast
    with tiles_inside [OF t c(1) fb] tiles_inside [OF t fb c(1)] sz [OF fb]
    have "unat f + 16 < unat c + 8 \<or> unat c + 8 + bsize (mem h) c \<le> unat f"
      by auto
    then show ?thesis
      using u by (auto intro!: outside)
  qed
  have seg: "segment_start h' = segment_start h" "segment_size h' = segment_size h"
    by (simp_all add: h'_def)
  have fs': "free_start h' = free_start h"
    by (simp add: h'_def memcpy_def)
  have wf': "wf_blocks 16 h' bs"
    using wf seg by (rule wf_blocks_same) (simp add: bsize_def hdr)
  have d': "dll (mem h') 0 (free_start h') fs"
    using d dll_frame [of fs "mem h'" "mem h"] link by (simp add: fs')
  have us: "\<And>x. x \<in> set bs \<Longrightarrow> bused (mem h') x = bused (mem h) x"
    by (simp add: bused_def hdr)
  show "inv_e h' bs fs"
    using wf' snz half d' dist fset us by (auto simp add: inv_e_def seg)
  show "live_of (mem h') (set bs) = live_of (mem h) (set bs)"
    using us by (auto simp add: live_of_def)
qed

lemma nused_update_codec [simp]:
  "get_size (h\<lparr>nused := v\<rparr>) b = get_size h b"
  "is_used (h\<lparr>nused := v\<rparr>) b = is_used h b"
  "get_next_header (h\<lparr>nused := v\<rparr>) b = get_next_header h b"
  "is_past_end (h\<lparr>nused := v\<rparr>) b = is_past_end h b"
  by (simp_all add: get_size_def is_used_def get_next_header_def is_past_end_def)

lemma myrealloc_e_null: "myrealloc_e NULL n h = mymalloc_e n h"
  by (subst myrealloc_e.simps) simp

lemma myrealloc_e_zero:
  "p \<noteq> NULL \<Longrightarrow> myrealloc_e p 0 h = map_option (Pair NULL) (myfree_e p h)"
  by (subst myrealloc_e.simps) (cases "myfree_e p h"; simp)

lemma myrealloc_e_inplace:
  assumes "p \<noteq> NULL" and "n \<noteq> 0" and "roundup_e n 8 \<le> get_size h (get_header p)"
  shows "myrealloc_e p n h =
    Some (p, let h1 = shrink (get_header p) (get_size h (get_header p)) (roundup_e n 8)
                        (h\<lparr>nused := nused h - get_size h (get_header p)\<rparr>)
             in h1\<lparr>nused := nused h1 + get_size h1 (get_header p)\<rparr>)"
  using assms by (subst myrealloc_e.simps) (simp add: shrink_def Let_def)

lemma myrealloc_e_grow:
  assumes "p \<noteq> NULL" and "n \<noteq> 0" and "\<not> roundup_e n 8 \<le> get_size h (get_header p)"
  shows "myrealloc_e p n h =
    (let b = get_header p; old = get_size h b; new = roundup_e n 8;
         h0 = h\<lparr>nused := nused h - old\<rparr>
     in do {
       (grown, h1) \<leftarrow> absorb new b (get_next_header h0 b) h0;
       if grown then myrealloc_e p new h1
       else do {
         (q, h2) \<leftarrow> mymalloc_e new h1;
         if q = NULL then Some (NULL, h2)
         else
           (let h3 = memcpy q p old h2;
                h4 = h3\<lparr>nused := nused h3 + get_size h3 b\<rparr>
            in do { h5 \<leftarrow> myfree_e p h4; Some (q, h5) })
       }
     })"
  using assms by (subst myrealloc_e.simps) (simp add: Let_def)

lemma inplace_inv:
  assumes inv: "inv_e h bs fs" and p: "p \<in> live_of (mem h) (set bs)"
    and n: "n \<noteq> 0" "roundup_e n 8 \<le> get_size h (get_header p)"
  shows "\<exists>h'. myrealloc_e p n h = Some (p, h') \<and>
           segment_start h' = segment_start h \<and> segment_size h' = segment_size h \<and>
           (\<exists>bs' fs'. inv_e h' bs' fs' \<and>
              live_of (mem h') (set bs') = live_of (mem h) (set bs))"
proof -
  from inv have wf: "wf_blocks 16 h bs"
    by (simp add: inv_e_def)
  from p obtain b where b: "b \<in> set bs" "bused (mem h) b" "p = b + 8"
    by (auto simp add: live_of_def)
  have pnz: "p \<noteq> 0"
    using live_of_nonzero [OF wf] p by auto
  have hp: "get_header p = b"
    by (simp add: get_header_def b(3))
  define h0 where "h0 = h\<lparr>nused := nused h - get_size h b\<rparr>"
  define h1 where "h1 = shrink b (get_size h0 b) (roundup_e n 8) h0"
  have inv0: "inv_e h0 bs fs"
    using inv by (simp add: h0_def)
  have b0: "bused (mem h0) b"
    using b(2) by (simp add: h0_def)
  have n0: "roundup_e n 8 \<le> get_size h0 b"
    using n(2) by (simp add: h0_def hp)
  note sh = shrink_inv [OF inv0 b(1) b0 roundup_e_props n0, folded h1_def]
  have res: "myrealloc_e p n h = Some (p, h1\<lparr>nused := nused h1 + get_size h1 b\<rparr>)"
    using myrealloc_e_inplace [OF pnz n] by (simp add: hp h1_def h0_def Let_def)
  from sh(1) obtain bs' fs' where "inv_e h1 bs' fs'"
    "live_of (mem h1) (set bs') = live_of (mem h0) (set bs)"
    by blast
  then have "inv_e (h1\<lparr>nused := nused h1 + get_size h1 b\<rparr>) bs' fs' \<and>
    live_of (mem (h1\<lparr>nused := nused h1 + get_size h1 b\<rparr>)) (set bs') = live_of (mem h) (set bs)"
    by (simp add: h0_def)
  with res sh(2,3) show ?thesis
    by (intro exI [of _ "h1\<lparr>nused := nused h1 + get_size h1 b\<rparr>"]) (auto simp add: h0_def)
qed

lemma myrealloc_e_inv:
  assumes inv: "inv_e h bs fs" and p: "p \<in> live_of (mem h) (set bs) \<or> p = NULL"
  shows "\<exists>q h'. myrealloc_e p n h = Some (q, h') \<and>
           segment_start h' = segment_start h \<and> segment_size h' = segment_size h \<and>
           (\<exists>bs' fs'. inv_e h' bs' fs' \<and>
              live_of (mem h') (set bs') = realloc_live p n q (live_of (mem h) (set bs)))"
proof (cases "p = NULL")
  case True
  with mymalloc_e_inv [OF inv, of n] inv show ?thesis
    by (auto simp add: myrealloc_e_null realloc_live_def)
next
  case pnz: False
  with p have pl: "p \<in> live_of (mem h) (set bs)" by simp
  show ?thesis
  proof (cases "n = 0")
    case True
    from myfree_e_inv [OF inv pl] obtain h' bs' fs' where
      "myfree_e p h = Some h'" "inv_e h' bs' fs'"
      "live_of (mem h') (set bs') = live_of (mem h) (set bs) - {p}"
      "segment_start h' = segment_start h" "segment_size h' = segment_size h"
      by blast
    with pnz True show ?thesis
      by (auto simp add: myrealloc_e_zero realloc_live_def)
  next
    case nnz: False
    let ?L = "live_of (mem h) (set bs)"
    have rl: "realloc_live p n q ?L = (if q = 0 then ?L else insert q (?L - {p}))" for q
      using pnz nnz by (simp add: realloc_live_def)
    from inv have wf: "wf_blocks 16 h bs"
      by (simp add: inv_e_def)
    from pl obtain b where b: "b \<in> set bs" "bused (mem h) b" "p = b + 8"
      by (auto simp add: live_of_def)
    have hp: "get_header p = b"
      by (simp add: get_header_def b(3))
    define new where "new = roundup_e n 8"
    note nw = roundup_e_props [of n, folded new_def]
    have newnz: "new \<noteq> 0"
      using nw(2) by auto
    have idem: "roundup_e new 8 = new"
      using nw by (rule roundup_e_idem)
    show ?thesis
    proof (cases "new \<le> get_size h b")
      case True
      from inplace_inv [OF inv pl nnz] True obtain h' where
        "myrealloc_e p n h = Some (p, h')"
        "segment_start h' = segment_start h" "segment_size h' = segment_size h"
        "\<exists>bs' fs'. inv_e h' bs' fs' \<and> live_of (mem h') (set bs') = ?L"
        by (auto simp add: hp new_def)
      moreover have "insert p (?L - {p}) = ?L"
        using pl by auto
      ultimately show ?thesis
        using pnz by (auto simp add: rl)
    next
      case False
      define old where "old = get_size h b"
      define h0 where "h0 = h\<lparr>nused := nused h - old\<rparr>"
      have inv0: "inv_e h0 bs fs"
        using inv by (simp add: h0_def)
      from b(1) obtain xs ys where bs: "bs = xs @ b # ys"
        by (auto dest: split_list)
      from absorb_inv [OF inv0 [unfolded bs], of new] obtain g h1 ys1 fs1 where
        ab: "absorb new b (get_next_header h0 b) h0 = Some (g, h1)"
        and inv1: "inv_e h1 (xs @ b # ys1) fs1"
        and used1: "bused (mem h1) b = bused (mem h0) b"
        and live1: "live_of (mem h1) (set (xs @ b # ys1)) = live_of (mem h0) (set (xs @ b # ys))"
        and seg1: "segment_start h1 = segment_start h0" "segment_size h1 = segment_size h0"
        and fit1: "g \<longrightarrow> new \<le> get_size h1 b"
        by blast
      have live1': "live_of (mem h1) (set (xs @ b # ys1)) = ?L"
        using live1 by (simp add: h0_def bs)
      have pl1: "p \<in> live_of (mem h1) (set (xs @ b # ys1))"
        using pl live1' by simp
      have seg1': "segment_start h1 = segment_start h" "segment_size h1 = segment_size h"
        using seg1 by (simp_all add: h0_def)
      have unfold: "myrealloc_e p n h =
        (if g then myrealloc_e p new h1
         else do {
           (q, h2) \<leftarrow> mymalloc_e new h1;
           if q = NULL then Some (NULL, h2)
           else
             (let h3 = memcpy q p (get_size h b) h2;
                  h4 = h3\<lparr>nused := nused h3 + get_size h3 b\<rparr>
              in do { h5 \<leftarrow> myfree_e p h4; Some (q, h5) })
         })"
      proof -
        have "absorb new b (get_next_header h b) (h\<lparr>nused := nused h - get_size h b\<rparr>)
            = Some (g, h1)"
          using ab by (simp add: h0_def old_def)
        with myrealloc_e_grow [OF pnz nnz] False show ?thesis
          by (simp add: hp new_def [symmetric] old_def Let_def)
      qed
      show ?thesis
      proof (cases g)
        case True
        with fit1 have "roundup_e new 8 \<le> get_size h1 (get_header p)"
          by (simp add: idem hp)
        from inplace_inv [OF inv1 pl1 newnz this] obtain h' where
          "myrealloc_e p new h1 = Some (p, h')"
          "segment_start h' = segment_start h1" "segment_size h' = segment_size h1"
          "\<exists>bs' fs'. inv_e h' bs' fs' \<and>
             live_of (mem h') (set bs') = live_of (mem h1) (set (xs @ b # ys1))"
          by blast
        moreover have "insert p (?L - {p}) = ?L"
          using pl by auto
        ultimately show ?thesis
          using pnz True unfold seg1' live1' by (auto simp add: rl)
      next
        case nog: False
        from mymalloc_e_inv [OF inv1, of new] obtain q h2 where
          res2: "mymalloc_e new h1 = Some (q, h2)"
          and seg2: "segment_start h2 = segment_start h1" "segment_size h2 = segment_size h1"
          and alt: "q = NULL \<and> h2 = h1 \<or>
            q \<noteq> NULL \<and> (\<exists>bs' fs'. inv_e h2 bs' fs' \<and>
              live_of (mem h2) (set bs') = insert q (live_of (mem h1) (set (xs @ b # ys1))) \<and>
              q \<notin> live_of (mem h1) (set (xs @ b # ys1)) \<and>
              q - 8 \<in> set bs' \<and> unat new \<le> bsize (mem h2) (q - 8))"
          by blast
        show ?thesis
        proof (cases "q = NULL")
          case True
          with alt have "h2 = h1" by simp
          with unfold nog res2 True have "myrealloc_e p n h = Some (NULL, h1)"
            by simp
          with inv1 live1' seg1' show ?thesis
            by (auto simp add: rl)
        next
          case qnz: False
          with alt obtain bs2 fs2 where inv2: "inv_e h2 bs2 fs2"
            and live2: "live_of (mem h2) (set bs2) = insert q ?L"
            and fresh: "q \<notin> ?L"
            and q8: "q - 8 \<in> set bs2" and fit2: "unat new \<le> bsize (mem h2) (q - 8)"
            unfolding live1' by blast
          define h3 where "h3 = memcpy q p old h2"
          define h4 where "h4 = h3\<lparr>nused := nused h3 + get_size h3 b\<rparr>"
          have unfold2: "myrealloc_e p n h = map_option (Pair q) (myfree_e p h4)"
            using unfold nog res2 qnz
            by (cases "myfree_e p h4") (simp_all add: Let_def h3_def h4_def old_def)
          have "q \<in> live_of (mem h2) (set bs2)"
            using live2 by simp
          then have qused: "bused (mem h2) (q - 8)"
            by (auto simp add: live_of_def)
          have "unat old < unat new"
            using False by (simp add: old_def word_le_nat_alt)
          with fit2 have cnt: "unat old \<le> bsize (mem h2) (q - 8)"
            by simp
          have h3': "h3 = memcpy (q - 8 + 8) p old h2"
            by (simp add: h3_def)
          note mc = memcpy_inv [OF inv2 q8 qused cnt, of p, folded h3']
          have inv4: "inv_e h4 bs2 fs2"
            using mc(1) by (simp add: h4_def)
          have live4: "live_of (mem h4) (set bs2) = insert q ?L"
            using mc(2) live2 by (simp add: h4_def)
          have pl4: "p \<in> live_of (mem h4) (set bs2)"
            using pl live4 by simp
          from myfree_e_inv [OF inv4 pl4] obtain h5 bs5 fs5 where
            "myfree_e p h4 = Some h5" "inv_e h5 bs5 fs5"
            "live_of (mem h5) (set bs5) = live_of (mem h4) (set bs2) - {p}"
            "segment_start h5 = segment_start h4" "segment_size h5 = segment_size h4"
            by blast
          moreover have "insert q ?L - {p} = insert q (?L - {p})"
            using fresh pl by auto
          moreover have "segment_start h4 = segment_start h" "segment_size h4 = segment_size h"
            using seg2 seg1' by (simp_all add: h4_def h3_def)
          ultimately show ?thesis
            using unfold2 live4 qnz by (auto simp add: rl)
        qed
      qed
    qed
  qed
qed

section \<open>Reachable states of the explicit allocator\<close>

inductive reach_e :: "eheap \<Rightarrow> addr set \<Rightarrow> bool" where
  e_init: "valid_segment base len \<Longrightarrow> myinit_e base len h0 = (True, h) \<Longrightarrow> reach_e h {}"
| e_alloc: "reach_e h L \<Longrightarrow> mymalloc_e n h = Some (p, h') \<Longrightarrow>
            reach_e h' (if p = NULL then L else insert p L)"
| e_free: "reach_e h L \<Longrightarrow> p \<in> L \<or> p = NULL \<Longrightarrow> myfree_e p h = Some h' \<Longrightarrow>
           reach_e h' (L - {p})"
| e_resize: "reach_e h L \<Longrightarrow> p \<in> L \<or> p = NULL \<Longrightarrow> myrealloc_e p n h = Some (q, h') \<Longrightarrow>
             reach_e h' (realloc_live p n q L)"
| e_write: "reach_e h L \<Longrightarrow> p \<in> L \<Longrightarrow> off < get_size h (get_header p) \<Longrightarrow>
            off AND 7 = 0 \<Longrightarrow> reach_e (store (p + off) v h) L"

lemma myinit_e_inv:
  assumes "valid_segment base len" and "myinit_e base len h0 = (True, h)"
  shows "inv_e h [base] [base]" and "live_of (mem h) (set [base]) = {}"
proof -
  from assms(2) have len: "\<not> len < 24"
    by (auto simp add: myinit_e_def Let_def split: if_splits)
  with assms(2) have h: "h = (store (base + 16) 0 (store (base + 8) 0
      ((store base (len - 8) (h0\<lparr>segment_start := base, segment_size := len\<rparr>))
         \<lparr>free_start := base\<rparr>)))\<lparr>nused := 0\<rparr>"
    by (simp add: myinit_e_def Let_def get_prev_free_def get_next_free_def)
  have l24: "24 \<le> unat len"
    using len by (simp add: word_less_nat_alt)
  have u: "unat (len - 8) = unat len - 8"
    using l24 unat_minus [of 8 len] by simp
  have "unat len mod 8 = 0"
    using assms(1) by (simp add: valid_segment_def)
  then have d: "8 dvd unat len - 8"
    using l24 by presburger
  then have ev: "even (unat (len - 8))"
    unfolding u by presburger
  have m: "mem h base = len - 8" "mem h (base + 8) = 0" "mem h (base + 16) = 0"
    by (simp_all add: h)
  have sz: "bsize (mem h) base = unat len - 8"
    using bsize_of_even [of "len - 8" "mem h" base] ev m u by simp
  have fr: "\<not> bused (mem h) base"
    using bused_of_even [of "len - 8" "mem h" base] ev m by simp
  have seg: "segment_start h = base" "segment_size h = len" "free_start h = base"
    by (simp_all add: h)
  have wf: "wf_blocks 16 h [base]"
    using assms(1) sz d l24 by (simp add: wf_blocks_def seg valid_segment_def)
  show "inv_e h [base] [base]"
    using wf assms(1) m fr by (auto simp add: inv_e_def seg valid_segment_def)
  show "live_of (mem h) (set [base]) = {}"
    using fr by (simp add: live_of_def)
qed

text \<open>Changes confined to the payload of a used block keep the invariant.\<close>

lemma payload_frame_inv:
  assumes inv: "inv_e h bs fs" and c: "c \<in> set bs" "bused (mem h) c"
    and seg: "segment_start h' = segment_start h" "segment_size h' = segment_size h"
      "free_start h' = free_start h"
    and outside: "\<And>a. unat a < unat c + 8 \<or> unat c + 8 + bsize (mem h) c \<le> unat a \<Longrightarrow>
                    mem h' a = mem h a"
  shows "inv_e h' bs fs" and "live_of (mem h') (set bs) = live_of (mem h) (set bs)"
proof -
  from inv have wf: "wf_blocks 16 h bs" and snz: "segment_start h \<noteq> 0"
    and half: "seg_end h \<le> 9223372036854775808"
    and d: "dll (mem h) 0 (free_start h) fs" and dist: "distinct fs"
    and fset: "set fs = {b \<in> set bs. \<not> bused (mem h) b}"
    by (simp_all add: inv_e_def)
  from wf have t: "tiles (mem h) bs (unat (segment_start h)) (seg_end h)"
    unfolding wf_blocks_def by blast
  from wf have sz: "\<And>b. b \<in> set bs \<Longrightarrow> 8 dvd bsize (mem h) b \<and> 16 \<le> bsize (mem h) b"
    unfolding wf_blocks_def by blast
  have hdr: "mem h' x = mem h x" if "x \<in> set bs" for x
    using tiles_inside [OF t c(1) that] by (intro outside) auto
  have link: "mem h' (f + 8) = mem h (f + 8) \<and> mem h' (f + 16) = mem h (f + 16)"
    if f: "f \<in> set fs" for f
  proof -
    from f fset c(2) have fb: "f \<in> set bs" and fc: "f \<noteq> c"
      by auto
    have u: "unat (f + 8) = unat f + 8" "unat (f + 16) = unat f + 16"
      using sep_unat [OF wf_sep [OF wf] fb] by simp_all
    have "unat f \<noteq> unat c"
      using fc word_of_unat_eq by blast
    with tiles_inside [OF t c(1) fb] tiles_inside [OF t fb c(1)] sz [OF fb]
    have "unat f + 16 < unat c + 8 \<or> unat c + 8 + bsize (mem h) c \<le> unat f"
      by auto
    then show ?thesis
      using u by (auto intro!: outside)
  qed
  have wf': "wf_blocks 16 h' bs"
    using wf seg(1,2) by (rule wf_blocks_same) (simp add: bsize_def hdr)
  have d': "dll (mem h') 0 (free_start h') fs"
    using d dll_frame [of fs "mem h'" "mem h"] link by (simp add: seg)
  have us: "\<And>x. x \<in> set bs \<Longrightarrow> bused (mem h') x = bused (mem h) x"
    by (simp add: bused_def hdr)
  show "inv_e h' bs fs"
    using wf' snz half d' dist fset us by (auto simp add: inv_e_def seg)
  show "live_of (mem h') (set bs) = live_of (mem h) (set bs)"
    using us by (auto simp add: live_of_def)
qed

lemma write_e_inv:
  assumes inv: "inv_e h bs fs" and p: "p \<in> live_of (mem h) (set bs)"
    and off: "off < get_size h (get_header p)"
  shows "inv_e (store (p + off) v h) bs fs"
    and "live_of (mem (store (p + off) v h)) (set bs) = live_of (mem h) (set bs)"
proof -
  from inv have wf: "wf_blocks 16 h bs"
    by (simp add: inv_e_def)
  from p obtain c where c: "c \<in> set bs" "bused (mem h) c" "p = c + 8"
    by (auto simp add: live_of_def)
  from wf have t: "tiles (mem h) bs (unat (segment_start h)) (seg_end h)"
    and e: "seg_end h < 18446744073709551616"
    by (simp_all add: wf_blocks_def)
  have o: "unat off < bsize (mem h) c"
    using off by (simp add: word_less_nat_alt unat_get_size get_header_def c(3))
  have up: "unat p = unat c + 8"
    using live_of_bounds(1) [OF wf c(1)] c(3) by simp
  have "unat c + 8 + bsize (mem h) c \<le> seg_end h"
    using tiles_bounds [OF t c(1)] by simp
  then have ua: "unat (p + off) = unat c + 8 + unat off"
    using up o e unat_plus [of p off] by simp
  have outside: "mem (store (p + off) v h) a = mem h a"
    if "unat a < unat c + 8 \<or> unat c + 8 + bsize (mem h) c \<le> unat a" for a
  proof -
    have "unat a \<noteq> unat (p + off)"
      using that ua o by auto
    then have "a \<noteq> p + off" by auto
    then show ?thesis by simp
  qed
  show "inv_e (store (p + off) v h) bs fs"
    using inv c(1,2) _ _ _ outside by (rule payload_frame_inv(1)) simp_all
  show "live_of (mem (store (p + off) v h)) (set bs) = live_of (mem h) (set bs)"
    using inv c(1,2) _ _ _ outside by (rule payload_frame_inv(2)) simp_all
qed

lemma reach_e_inv:
  "reach_e h L \<Longrightarrow> \<exists>bs fs. inv_e h bs fs \<and> L = live_of (mem h) (set bs)"
proof (induction rule: reach_e.induct)
  case (e_init base len h0 h)
  from myinit_e_inv [OF this] show ?case by metis
next
  case (e_alloc h L n p h')
  then obtain bs fs where inv: "inv_e h bs fs" and L: "L = live_of (mem h) (set bs)"
    by blast
  from mymalloc_e_inv [OF inv, of n] e_alloc.hyps(2) L inv show ?case
    by auto
next
  case (e_free h L p h')
  then obtain bs fs where inv: "inv_e h bs fs" and L: "L = live_of (mem h) (set bs)"
    by blast
  show ?case
  proof (cases "p = NULL")
    case True
    have "0 \<notin> L"
      using live_of_nonzero [of 16 h bs] inv L by (simp add: inv_e_def)
    with True e_free.hyps(3) inv L show ?thesis
      by (auto simp add: myfree_e_null)
  next
    case False
    with e_free.hyps(2) L have "p \<in> live_of (mem h) (set bs)" by simp
    from myfree_e_inv [OF inv this] e_free.hyps(3) L show ?thesis
      by auto
  qed
next
  case (e_resize h L p n q h')
  then obtain bs fs where inv: "inv_e h bs fs" and L: "L = live_of (mem h) (set bs)"
    by blast
  from myrealloc_e_inv [OF inv, of p n] e_resize.hyps(2,3) L show ?case
    by auto
next
  case (e_write h L p off v)
  then obtain bs fs where inv: "inv_e h bs fs" and L: "L = live_of (mem h) (set bs)"
    by blast
  from e_write.hyps(2) L have "p \<in> live_of (mem h) (set bs)" by simp
  from write_e_inv [OF inv this e_write.hyps(3), of v] L show ?case
    by blast
qed

section \<open>What \<^verbatim>\<open>validate_heap\<close> and \<^verbatim>\<open>dump_heap\<close> see\<close>

text \<open>
  The nodes of the free list, in order: the walk of \<^verbatim>\<open>validate_heap\<close> along the next links from
  \<^verbatim>\<open>free_start\<close> to \<^verbatim>\<open>NULL\<close>, collecting the nodes it visits.
\<close>

partial_function (option) free_list :: "addr \<Rightarrow> eheap \<Rightarrow> addr list option" where
  "free_list cur h =
     (if cur \<noteq> NULL then
        do { rest \<leftarrow> free_list (load h (get_next_free cur)) h; Some (cur # rest) }
      else Some [])"

lemma free_list_dll: "dll (mem h) p c fs \<Longrightarrow> free_list c h = Some fs"
proof (induction fs arbitrary: p c)
  case Nil
  then show ?case by (subst free_list.simps) simp
next
  case (Cons f fs)
  then have c: "c = f" "f \<noteq> 0" and rest: "dll (mem h) f (mem h (f + 16)) fs"
    by simp_all
  from Cons.IH [OF rest] c show ?case
    by (subst free_list.simps) (simp add: get_next_free_def)
qed

lemma list_all_free_dll:
  "dll (mem h) p c fs \<Longrightarrow> (\<And>f. f \<in> set fs \<Longrightarrow> \<not> is_used h f) \<Longrightarrow>
   list_all_free c h = Some True"
proof (induction fs arbitrary: p c)
  case Nil
  then show ?case by (subst list_all_free.simps) simp
next
  case (Cons f fs)
  then have c: "c = f" "f \<noteq> 0" and rest: "dll (mem h) f (mem h (f + 16)) fs"
    by simp_all
  have "list_all_free (mem h (f + 16)) h = Some True"
    using rest Cons.prems(2) by (intro Cons.IH) auto
  with c Cons.prems(2) [of f] show ?case
    by (subst list_all_free.simps) (simp add: get_next_free_def)
qed

lemma find_in_list_dll:
  "dll (mem h) p c fs \<Longrightarrow> x \<in> set fs \<Longrightarrow> find_in_list x c h = Some x"
proof (induction fs arbitrary: p c)
  case Nil
  then show ?case by simp
next
  case (Cons f fs)
  then have c: "c = f" "f \<noteq> 0" and rest: "dll (mem h) f (mem h (f + 16)) fs"
    by simp_all
  show ?case
  proof (cases "x = f")
    case True
    with c show ?thesis
      by (subst find_in_list.simps) simp
  next
    case False
    with Cons.prems(2) have "x \<in> set fs" by simp
    from Cons.IH [OF rest this] c False show ?thesis
      by (subst find_in_list.simps) (simp add: get_next_free_def)
  qed
qed

lemma all_free_listed_tiles:
  assumes "tiles (mem h) bs (unat c) (seg_end h)" and "seg_end h < 18446744073709551616"
    and "dll (mem h) 0 (free_start h) fs"
    and "\<And>b. b \<in> set bs \<Longrightarrow> \<not> is_used h b \<Longrightarrow> b \<in> set fs"
  shows "all_free_listed c h = Some True"
  using assms(1,4)
proof (induction bs arbitrary: c)
  case Nil
  then have "is_past_end h c"
    using assms(2) by (simp add: is_past_end_unat)
  then show ?case
    by (subst all_free_listed.simps) simp
next
  case (Cons b bs)
  from Cons.prems(1) have bc: "b = c"
    by (simp add: word_of_unat_eq)
  note nh = tiles_next_header [OF Cons.prems(1) [unfolded bc] assms(2)]
  have lt: "unat c + 8 + bsize (mem h) c \<le> seg_end h"
    using tiles_le [OF nh(2)] nh(1) by simp
  then have npe: "\<not> is_past_end h c"
    using assms(2) by (simp add: is_past_end_unat)
  have IH: "all_free_listed (get_next_header h c) h = Some True"
    using nh(2) Cons.prems(2) by (intro Cons.IH) auto
  show ?case
  proof (cases "is_used h c")
    case True
    with npe IH show ?thesis
      by (subst all_free_listed.simps) simp
  next
    case False
    with Cons.prems(2) [of c] bc have cf: "c \<in> set fs" by simp
    then have "c \<noteq> 0"
      using dll_nonzero [OF assms(3)] by auto
    with npe IH False find_in_list_dll [OF assms(3) cf] show ?thesis
      by (subst all_free_listed.simps) simp
  qed
qed

lemma validate_heap_e_inv:
  assumes "inv_e h bs fs"
  shows "validate_heap_e h = Some True"
proof -
  from assms have wf: "wf_blocks 16 h bs"
    and d: "dll (mem h) 0 (free_start h) fs"
    and fset: "set fs = {b \<in> set bs. \<not> bused (mem h) b}"
    by (simp_all add: inv_e_def)
  have walk: "heap_walk 0 (segment_start h) h = Some (segment_size h)"
    using wf by (rule wf_blocks_walk)
  have head: "\<not> (free_start h \<noteq> 0 \<and> load h (get_prev_free (free_start h)) \<noteq> 0)"
    using d by (cases fs) (simp_all add: get_prev_free_def)
  have laf: "list_all_free (free_start h) h = Some True"
    using d by (rule list_all_free_dll) (simp add: fset is_used_bused)
  have afl: "all_free_listed (segment_start h) h = Some True"
    using wf d fset by (intro all_free_listed_tiles [of h bs _ fs])
      (simp_all add: wf_blocks_def is_used_bused)
  from walk head laf afl show ?thesis
    by (simp add: validate_heap_e_def Let_def)
qed

text \<open>\<open>tiled h\<close>: headers stepped through by \<^verbatim>\<open>get_next_header\<close> tile the segment exactly.\<close>

definition tiled :: "('a heap_scheme) \<Rightarrow> bool" where
  "tiled h \<longleftrightarrow>
     seg_end h < 18446744073709551616 \<and>
     (\<exists>bs. bs \<noteq> [] \<and> tiles (mem h) bs (unat (segment_start h)) (seg_end h))"

lemma wf_blocks_tiled: "wf_blocks k h bs \<Longrightarrow> tiled h"
  unfolding wf_blocks_def tiled_def by blast

lemma tiled_walks:
  assumes "tiled h"
  shows "heap_walk 0 (segment_start h) h = Some (segment_size h)"
    and "\<exists>blocks. dump_heap h = Some blocks \<and>
           (\<forall>(a, u, s) \<in> set blocks. unat a + 8 \<le> unat (get_next_header h a))"
proof -
  from assms obtain bs where e: "seg_end h < 18446744073709551616"
    and t: "tiles (mem h) bs (unat (segment_start h)) (seg_end h)"
    unfolding tiled_def by blast
  from heap_walk_tiles [OF t e, of 0] show "heap_walk 0 (segment_start h) h = Some (segment_size h)"
    by simp
  have d: "dump_heap h = Some (map (\<lambda>b. (b, is_used h b, get_size h b)) bs)"
    using dump_walk_tiles [OF t e, of "[]"] by (simp add: dump_heap_def)
  have "unat b + 8 \<le> unat (get_next_header h b)" if "b \<in> set bs" for b
  proof -
    have "unat b + 8 + bsize (mem h) b < 18446744073709551616"
      using tiles_bounds [OF t that] e by simp
    from unat_next_header [OF this] show ?thesis by simp
  qed
  with d show "\<exists>blocks. dump_heap h = Some blocks \<and>
           (\<forall>(a, u, s) \<in> set blocks. unat a + 8 \<le> unat (get_next_header h a))"
    by auto
qed

lemma tiled_first_fit:
  assumes "tiled h"
  shows "\<exists>found. first_fit needed (segment_start h) h = Some found"
proof -
  from assms obtain bs where e: "seg_end h < 18446744073709551616" and ne: "bs \<noteq> []"
    and t: "tiles (mem h) bs (unat (segment_start h)) (seg_end h)"
    unfolding tiled_def by blast
  from first_fit_tiles [OF t e ne, of needed] show ?thesis
    by auto
qed

section \<open>Concrete runs\<close>

text \<open>Before the first \<^verbatim>\<open>myinit\<close>: the file-scope variables are zero, and so is memory.\<close>

definition zero_heap :: heap where
  "zero_heap = \<lparr>segment_start = 0, segment_size = 0, nused = 0, mem = (\<lambda>a. 0)\<rparr>"

definition zero_eheap :: eheap where
  "zero_eheap = \<lparr>segment_start = 0, segment_size = 0, nused = 0, mem = (\<lambda>a. 0), free_start = 0\<rparr>"

text \<open>The implicit allocator after \<^verbatim>\<open>myinit(4096, 256)\<close> and after one more \<^verbatim>\<open>mymalloc(16)\<close>.\<close>

definition i_fresh :: heap where
  "i_fresh = snd (myinit_i 4096 256 zero_heap)"

definition i_one :: heap where
  "i_one = snd (the (mymalloc_i 16 i_fresh))"

text \<open>The explicit allocator after \<^verbatim>\<open>myinit(4096, 256)\<close> and after one and two \<^verbatim>\<open>mymalloc(16)\<close>.\<close>

definition e_fresh :: eheap where
  "e_fresh = snd (myinit_e 4096 256 zero_eheap)"

definition e_one :: eheap where
  "e_one = snd (the (mymalloc_e 16 e_fresh))"

definition e_two :: eheap where
  "e_two = snd (the (mymalloc_e 16 e_one))"

lemmas eval_defs =
  myinit_i_def myinit_e_def mymalloc_i_def mymalloc_e_def myfree_i_def myfree_e_def
  myrealloc_i_def roundup_i_def roundup_e_def MAX_REQUEST_SIZE_def
  store_def load_def get_size_def is_used_def is_past_end_def get_header_def
  get_next_header_def get_next_free_def get_prev_free_def remove_free_def add_free_def
  set_used_def set_free_def validate_heap_i_def validate_heap_e_def dump_heap_def memcpy_def
  Let_def

lemmas eval_loops =
  first_fit.simps find_fit.simps heap_walk.simps dump_walk.simps coalesce.simps absorb.simps
  list_all_free.simps find_in_list.simps all_free_listed.simps

lemma i_fresh_eq:
  "i_fresh = \<lparr>segment_start = 4096, segment_size = 256, nused = 0, mem = (\<lambda>a. 0)(4096 := 248)\<rparr>"
  by (simp add: i_fresh_def zero_heap_def eval_defs)

lemma i_one_eq:
  "mymalloc_i 16 i_fresh = Some (4104, i_one)"
  "i_one = \<lparr>segment_start = 4096, segment_size = 256, nused = 16,
            mem = (\<lambda>a. 0)(4096 := 17, 4120 := 224)\<rparr>"
  by (simp_all add: i_one_def i_fresh_eq eval_defs eval_loops)

lemma e_fresh_eq:
  "e_fresh = \<lparr>segment_start = 4096, segment_size = 256, nused = 0,
     mem = (\<lambda>a. 0)(4096 := 248, 4104 := 0, 4112 := 0), free_start = 4096\<rparr>"
  by (simp add: e_fresh_def zero_eheap_def eval_defs)

lemma e_one_eq:
  "mymalloc_e 16 e_fresh = Some (4104, e_one)"
  "e_one = \<lparr>segment_start = 4096, segment_size = 256, nused = 16,
     mem = (\<lambda>a. 0)(4104 := 0, 4112 := 0, 4096 := 17, 4120 := 224, 4128 := 0, 4136 := 0),
     free_start = 4120\<rparr>"
  by (simp_all add: e_one_def e_fresh_eq eval_defs eval_loops)

lemma e_two_eq:
  "mymalloc_e 16 e_one = Some (4128, e_two)"
  "e_two = \<lparr>segment_start = 4096, segment_size = 256, nused = 32,
     mem = (\<lambda>a. 0)(4104 := 0, 4112 := 0, 4096 := 17, 4128 := 0, 4136 := 0, 4120 := 17,
                    4144 := 200, 4152 := 0, 4160 := 0),
     free_start = 4144\<rparr>"
  by (simp_all add: e_two_def e_one_eq eval_defs eval_loops)

lemma reach_i_fresh: "reach_i i_fresh {}"
proof (rule reach_i.i_init)
  show "valid_segment 4096 256"
    by (simp add: valid_segment_def)
  show "myinit_i 4096 256 zero_heap = (True, i_fresh)"
    by (simp add: i_fresh_def zero_heap_def eval_defs)
qed

lemma reach_i_one: "reach_i i_one {4104}"
  using reach_i.i_alloc [OF reach_i_fresh i_one_eq(1)] by simp

section \<open>Claims settled by evaluation\<close>

text \<open>
  C9.  When \<^verbatim>\<open>myinit\<close> returns false (length below \<open>2 * ALIGNMENT\<close> in the implicit allocator,
  below \<open>3 * ALIGNMENT\<close> in the explicit one), \<^verbatim>\<open>segment_start\<close> has already been overwritten
  with the new base, and nothing else has changed: \<^verbatim>\<open>segment_size\<close>, \<^verbatim>\<open>nused\<close>, \<^verbatim>\<open>free_start\<close>
  and memory keep their values.  A heap initialised before is thus not left intact.
\<close>

theorem failed_init_effect:
  "(heap_size < 2 * ALIGNMENT \<longrightarrow>
      myinit_i heap_start heap_size h = (False, h\<lparr>segment_start := heap_start\<rparr>)) \<and>
   (heap_size < 3 * ALIGNMENT \<longrightarrow>
      myinit_e heap_start heap_size g = (False, g\<lparr>segment_start := heap_start\<rparr>))"
  by (simp add: myinit_i_def myinit_e_def)

theorem failed_init_effect_witness:
  "(8 :: size_t) < 2 * ALIGNMENT \<and> (8 :: size_t) < 3 * ALIGNMENT \<and>
   myinit_i 8192 8 i_one = (False, i_one\<lparr>segment_start := 8192\<rparr>) \<and>
   myinit_e 8192 8 e_one = (False, e_one\<lparr>segment_start := 8192\<rparr>) \<and>
   segment_start i_one = 4096 \<and> i_one\<lparr>segment_start := 8192\<rparr> \<noteq> i_one \<and>
   segment_start e_one = 4096 \<and> e_one\<lparr>segment_start := 8192\<rparr> \<noteq> e_one"
proof -
  have "i_one\<lparr>segment_start := 8192\<rparr> \<noteq> i_one" "segment_start i_one = 4096"
    by (simp_all add: i_one_eq(2))
  moreover have "e_one\<lparr>segment_start := 8192\<rparr> \<noteq> e_one" "segment_start e_one = 4096"
    by (simp_all add: e_one_eq(2))
  ultimately show ?thesis
    using failed_init_effect [of 8 8192 i_one e_one] by simp
qed

text \<open>
  C3, as stated, fails: \<^verbatim>\<open>myrealloc(p, 0)\<close> on a held payload returns \<^verbatim>\<open>NULL\<close> but frees the
  block.  Here the implicit allocator after \<^verbatim>\<open>myinit(4096, 256)\<close> and \<^verbatim>\<open>a = mymalloc(16)\<close>:
  \<^verbatim>\<open>myrealloc(a, 0)\<close> takes \<^verbatim>\<open>nused\<close> from 16 to 0 and clears the used bit of the header.
\<close>

theorem rejection_counterexample:
  "reach_i i_one {4104} \<and>
   myrealloc_i 4104 0 i_one = Some (NULL, myfree_i 4104 i_one) \<and>
   nused i_one = 16 \<and> nused (myfree_i 4104 i_one) = 0 \<and>
   is_used i_one 4096 \<and> \<not> is_used (myfree_i 4104 i_one) 4096"
  using reach_i_one
  by (simp add: i_one_eq(2) eval_defs eval_loops)

text \<open>
  C3, amended.  A request of size 0 or above \<open>MAX_REQUEST_SIZE\<close> makes \<^verbatim>\<open>mymalloc\<close>, and
  \<^verbatim>\<open>myrealloc\<close> called with a \<^verbatim>\<open>NULL\<close> pointer, return \<^verbatim>\<open>NULL\<close> and leave the whole state as
  it was, in both allocators; so does \<^verbatim>\<open>myrealloc\<close> of the implicit allocator on a non-null
  pointer with a size above \<open>MAX_REQUEST_SIZE\<close>.  With size 0 and a non-null pointer,
  \<^verbatim>\<open>myrealloc\<close> returns \<^verbatim>\<open>NULL\<close> and does what \<^verbatim>\<open>myfree\<close> does, in both allocators.
\<close>

theorem rejection_atomic:
  assumes "requested = 0 \<or> requested > MAX_REQUEST_SIZE"
  shows "mymalloc_i requested h = Some (NULL, h) \<and>
         mymalloc_e requested g = Some (NULL, g) \<and>
         myrealloc_i NULL requested h = Some (NULL, h) \<and>
         myrealloc_e NULL requested g = Some (NULL, g) \<and>
         (p \<noteq> NULL \<and> requested \<noteq> 0 \<longrightarrow> myrealloc_i p requested h = Some (NULL, h)) \<and>
         (p \<noteq> NULL \<and> requested = 0 \<longrightarrow>
            myrealloc_i p requested h = Some (NULL, myfree_i p h) \<and>
            myrealloc_e p requested g = map_option (Pair NULL) (myfree_e p g))"
proof -
  have i: "mymalloc_i requested h = Some (NULL, h)"
    using assms by (simp add: mymalloc_i_def)
  have e: "mymalloc_e requested g = Some (NULL, g)"
    using assms by (simp add: mymalloc_e_def)
  have "myrealloc_e p 0 g = map_option (Pair NULL) (myfree_e p g)" if "p \<noteq> NULL"
    using that by (subst myrealloc_e.simps) (cases "myfree_e p g"; simp)
  moreover have "myrealloc_e NULL requested g = Some (NULL, g)"
    using e by (subst myrealloc_e.simps) simp
  ultimately show ?thesis
    using i e by (auto simp add: myrealloc_i_def Let_def)
qed

theorem rejection_atomic_witness:
  "((0 :: size_t) = 0 \<or> (0 :: size_t) > MAX_REQUEST_SIZE) \<and>
   mymalloc_i 0 i_one = Some (NULL, i_one) \<and> mymalloc_e 0 e_one = Some (NULL, e_one) \<and>
   myrealloc_i NULL 0 i_one = Some (NULL, i_one) \<and>
   myrealloc_e NULL 0 e_one = Some (NULL, e_one) \<and>
   myrealloc_i 4104 0 i_one = Some (NULL, myfree_i 4104 i_one) \<and>
   myrealloc_e 4104 0 e_one = map_option (Pair NULL) (myfree_e 4104 e_one)"
  using rejection_atomic [of 0 i_one e_one 4104] by simp

text \<open>
  C7.  The explicit allocator on a 256-byte segment (at address 4096, whatever the state
  before): after \<^verbatim>\<open>myinit\<close> and three \<^verbatim>\<open>mymalloc(16)\<close> the payloads are 4104, 4128 and 4152,
  each in a used block of size 16, \<^verbatim>\<open>nused\<close> is 48, the block at 4168 is free, has size 176,
  ends the segment and is the head of the free list, and \<^verbatim>\<open>validate_heap\<close> returns true.
\<close>

theorem fresh_heap_fill:
  "do { let (ok, h) = myinit_e 4096 256 h0;
        (a, h) \<leftarrow> mymalloc_e 16 h;
        (b, h) \<leftarrow> mymalloc_e 16 h;
        (c, h) \<leftarrow> mymalloc_e 16 h;
        valid \<leftarrow> validate_heap_e h;
        blocks \<leftarrow> dump_heap h;
        Some (ok, a, b, c, nused h, blocks, free_start h,
              is_past_end h (get_next_header h 4168), valid) }
   = Some (True, 4104, 4128, 4152, 48,
           [(4096, True, 16), (4120, True, 16), (4144, True, 16), (4168, False, 176)], 4168,
           True, True)"
  by (simp add: eval_defs eval_loops)

theorem fresh_heap_fill_witness:
  "do { let (ok, h) = myinit_e 4096 256 zero_eheap;
        (a, h) \<leftarrow> mymalloc_e 16 h;
        (b, h) \<leftarrow> mymalloc_e 16 h;
        (c, h) \<leftarrow> mymalloc_e 16 h;
        valid \<leftarrow> validate_heap_e h;
        blocks \<leftarrow> dump_heap h;
        Some (ok, a, b, c, nused h, blocks, free_start h,
              is_past_end h (get_next_header h 4168), valid) }
   = Some (True, 4104, 4128, 4152, 48,
           [(4096, True, 16), (4120, True, 16), (4144, True, 16), (4168, False, 176)], 4168,
           True, True)"
  by (rule fresh_heap_fill)

text \<open>
  C4 fails in the explicit allocator.  After \<^verbatim>\<open>myinit(4096, 256)\<close>, \<^verbatim>\<open>a = mymalloc(16)\<close> and
  \<^verbatim>\<open>b = mymalloc(16)\<close>, \<^verbatim>\<open>nused\<close> is 32.  \<^verbatim>\<open>myrealloc(a, 1000)\<close> finds no room and returns
  \<^verbatim>\<open>NULL\<close>; both blocks are still used, with size 16 each, but \<^verbatim>\<open>nused\<close> is now 16:
  the \<^verbatim>\<open>nused -= old_size\<close> at the head of \<^verbatim>\<open>myrealloc\<close> is not undone on this return.
\<close>

theorem nused_after_failed_realloc:
  "mymalloc_e 16 e_fresh = Some (4104, e_one) \<and>
   mymalloc_e 16 e_one = Some (4128, e_two) \<and>
   nused e_two = 32 \<and>
   map_option (\<lambda>(q, h). (q, nused h, is_used h (get_header 4104), get_size h (get_header 4104),
                          is_used h (get_header 4128), get_size h (get_header 4128)))
     (myrealloc_e 4104 1000 e_two)
   = Some (NULL, 16, True, 16, True, 16)"
  apply (simp add: e_one_eq(1) e_two_eq(1))
  apply (subst myrealloc_e.simps)
  apply (simp add: e_two_eq(2) eval_defs eval_loops)
  done


section \<open>Claims about reachable states\<close>

lemma reach_e_fresh: "reach_e e_fresh {}"
proof (rule reach_e.e_init)
  show "valid_segment 4096 256"
    by (simp add: valid_segment_def)
  show "myinit_e 4096 256 zero_eheap = (True, e_fresh)"
    by (simp add: e_fresh_def zero_eheap_def eval_defs)
qed

lemma reach_e_one: "reach_e e_one {4104}"
  using reach_e.e_alloc [OF reach_e_fresh e_one_eq(1)] by simp

lemma reach_e_two: "reach_e e_two {4128, 4104}"
  using reach_e.e_alloc [OF reach_e_one e_two_eq(1)] by simp

lemma tiles_sum: "tiles m bs a e \<Longrightarrow> (\<Sum>b\<leftarrow>bs. bsize m b + 8) + a = e"
proof (induction bs arbitrary: a)
  case Nil
  then show ?case by simp
next
  case (Cons b bs)
  from Cons.prems have "tiles m bs (a + 8 + bsize m b) e" by simp
  from Cons.IH [OF this] show ?case by simp
qed

lemma wf_blocks_sum:
  assumes "wf_blocks k h bs"
  shows "\<exists>blocks. dump_heap h = Some blocks \<and>
           (\<Sum>(a, u, s)\<leftarrow>blocks. unat s + 8) = unat (segment_size h)"
proof -
  from assms have t: "tiles (mem h) bs (unat (segment_start h)) (seg_end h)"
    by (simp add: wf_blocks_def)
  have "(\<Sum>(a, u, s)\<leftarrow>map (\<lambda>b. (b, is_used h b, get_size h b)) bs. unat s + 8)
      = (\<Sum>b\<leftarrow>bs. bsize (mem h) b + 8)"
    by (simp add: comp_def unat_get_size)
  with tiles_sum [OF t] wf_blocks_dump [OF assms] show ?thesis
    by simp
qed

lemma wf_blocks_sizes:
  assumes "wf_blocks k h bs"
  shows "\<exists>blocks. dump_heap h = Some blocks \<and>
           (\<forall>(a, u, s) \<in> set blocks. unat s mod 8 = 0 \<and> k \<le> unat s)"
proof -
  from assms have "\<And>b. b \<in> set bs \<Longrightarrow> 8 dvd bsize (mem h) b \<and> k \<le> bsize (mem h) b"
    unfolding wf_blocks_def by blast
  then show ?thesis
    using wf_blocks_dump [OF assms] by (auto simp add: unat_get_size)
qed

text \<open>
  C1, as stated, fails: \<^verbatim>\<open>myinit\<close> succeeds on any length of at least two (three) words, also
  on one that is not a multiple of the alignment.  The implicit \<^verbatim>\<open>myinit(4096, 17)\<close> returns
  true and writes the header 9: a block of size 8 with the used bit set, which ends at 4112,
  one byte before the end of the segment.  The next header would lie across the end of the
  segment, and the walk of \<^verbatim>\<open>validate_heap\<close> counts 24, not 17.
\<close>

definition i_odd :: heap where
  "i_odd = snd (myinit_i 4096 17 zero_heap)"

theorem segment_tiling_counterexample:
  "myinit_i 4096 17 zero_heap = (True, i_odd) \<and>
   get_size i_odd 4096 = 8 \<and> get_next_header i_odd 4096 = 4112 \<and>
   \<not> is_past_end i_odd 4112 \<and> segment_start i_odd + segment_size i_odd = 4113 \<and>
   heap_walk 0 (segment_start i_odd) i_odd = Some 24 \<and>
   validate_heap_i i_odd = Some False"
  by (simp add: i_odd_def zero_heap_def eval_defs eval_loops)

text \<open>
  C1, amended.  In both allocators, in every state reached from a successful \<^verbatim>\<open>myinit\<close> on a
  valid segment (non-null base, length a multiple of the alignment, inside the lower half of
  the address space) by \<^verbatim>\<open>mymalloc\<close>, \<^verbatim>\<open>myfree\<close> and \<^verbatim>\<open>myrealloc\<close> calls on held payloads (and
  client writes into held payloads), the headers walked from \<^verbatim>\<open>segment_start\<close> tile the segment
  exactly: the walk ends, the sizes plus one header word each add up to \<^verbatim>\<open>segment_size\<close> (as
  natural numbers, and in the \<^verbatim>\<open>size_t\<close> sum of \<^verbatim>\<open>validate_heap\<close>), and \<^verbatim>\<open>validate_heap\<close> returns true.
\<close>

theorem segment_tiling:
  "(reach_i h L \<longrightarrow>
      heap_walk 0 (segment_start h) h = Some (segment_size h) \<and>
      (\<exists>blocks. dump_heap h = Some blocks \<and>
         (\<Sum>(a, u, s)\<leftarrow>blocks. unat s + 8) = unat (segment_size h)) \<and>
      validate_heap_i h = Some True) \<and>
   (reach_e g M \<longrightarrow>
      heap_walk 0 (segment_start g) g = Some (segment_size g) \<and>
      (\<exists>blocks. dump_heap g = Some blocks \<and>
         (\<Sum>(a, u, s)\<leftarrow>blocks. unat s + 8) = unat (segment_size g)) \<and>
      validate_heap_e g = Some True)"
proof (intro conjI impI)
  assume "reach_i h L"
  then obtain bs where wf: "wf_blocks 8 h bs"
    using reach_i_inv by blast
  show "heap_walk 0 (segment_start h) h = Some (segment_size h)"
    using wf by (rule wf_blocks_walk)
  then show "validate_heap_i h = Some True"
    by (simp add: validate_heap_i_def)
  show "\<exists>blocks. dump_heap h = Some blocks \<and>
         (\<Sum>(a, u, s)\<leftarrow>blocks. unat s + 8) = unat (segment_size h)"
    using wf by (rule wf_blocks_sum)
next
  assume "reach_e g M"
  then obtain bs fs where inv: "inv_e g bs fs"
    using reach_e_inv by blast
  then have wf: "wf_blocks 16 g bs"
    by (simp add: inv_e_def)
  show "heap_walk 0 (segment_start g) g = Some (segment_size g)"
    using wf by (rule wf_blocks_walk)
  show "validate_heap_e g = Some True"
    using inv by (rule validate_heap_e_inv)
  show "\<exists>blocks. dump_heap g = Some blocks \<and>
         (\<Sum>(a, u, s)\<leftarrow>blocks. unat s + 8) = unat (segment_size g)"
    using wf by (rule wf_blocks_sum)
qed

theorem segment_tiling_witness:
  "reach_i i_one {4104} \<and>
   heap_walk 0 (segment_start i_one) i_one = Some (segment_size i_one) \<and>
   (\<exists>blocks. dump_heap i_one = Some blocks \<and>
      (\<Sum>(a, u, s)\<leftarrow>blocks. unat s + 8) = unat (segment_size i_one)) \<and>
   validate_heap_i i_one = Some True \<and>
   reach_e e_two {4128, 4104} \<and>
   heap_walk 0 (segment_start e_two) e_two = Some (segment_size e_two) \<and>
   (\<exists>blocks. dump_heap e_two = Some blocks \<and>
      (\<Sum>(a, u, s)\<leftarrow>blocks. unat s + 8) = unat (segment_size e_two)) \<and>
   validate_heap_e e_two = Some True"
  using segment_tiling [of i_one "{4104}" e_two "{4128, 4104}"] reach_i_one reach_e_two
  by blast

text \<open>
  C8, as stated, fails for the same reason: the explicit \<^verbatim>\<open>myinit(4096, 28)\<close> returns true and
  leaves one block of size 20, which is not a multiple of 8.
\<close>

definition e_unaligned :: eheap where
  "e_unaligned = snd (myinit_e 4096 28 zero_eheap)"

theorem block_sizes_counterexample:
  "fst (myinit_e 4096 28 zero_eheap) \<and>
   dump_heap e_unaligned = Some [(4096, False, 20)] \<and>
   (20 :: size_t) mod ALIGNMENT = 4"
  by (simp add: e_unaligned_def zero_eheap_def eval_defs eval_loops)

text \<open>
  C8, amended.  In every state reached from a successful \<^verbatim>\<open>myinit\<close> on a valid segment (length
  a multiple of the alignment), every block's size is a multiple of \<open>ALIGNMENT\<close>, and is at
  least \<open>ALIGNMENT\<close> in the implicit allocator and at least \<open>2 * ALIGNMENT\<close> in the explicit one.
  The blocks are those \<^verbatim>\<open>dump_heap\<close> lists.
\<close>

theorem block_sizes:
  "(reach_i h L \<longrightarrow>
      (\<exists>blocks. dump_heap h = Some blocks \<and>
         (\<forall>(a, u, s) \<in> set blocks. unat s mod 8 = 0 \<and> 8 \<le> unat s))) \<and>
   (reach_e g M \<longrightarrow>
      (\<exists>blocks. dump_heap g = Some blocks \<and>
         (\<forall>(a, u, s) \<in> set blocks. unat s mod 8 = 0 \<and> 16 \<le> unat s)))"
proof (intro conjI impI)
  assume "reach_i h L"
  then obtain bs where "wf_blocks 8 h bs"
    using reach_i_inv by blast
  then show "\<exists>blocks. dump_heap h = Some blocks \<and>
         (\<forall>(a, u, s) \<in> set blocks. unat s mod 8 = 0 \<and> 8 \<le> unat s)"
    by (rule wf_blocks_sizes)
next
  assume "reach_e g M"
  then obtain bs fs where "inv_e g bs fs"
    using reach_e_inv by blast
  then have "wf_blocks 16 g bs"
    by (simp add: inv_e_def)
  then show "\<exists>blocks. dump_heap g = Some blocks \<and>
         (\<forall>(a, u, s) \<in> set blocks. unat s mod 8 = 0 \<and> 16 \<le> unat s)"
    by (rule wf_blocks_sizes)
qed

theorem block_sizes_witness:
  "reach_i i_one {4104} \<and>
   (\<exists>blocks. dump_heap i_one = Some blocks \<and>
      (\<forall>(a, u, s) \<in> set blocks. unat s mod 8 = 0 \<and> 8 \<le> unat s)) \<and>
   reach_e e_two {4128, 4104} \<and>
   (\<exists>blocks. dump_heap e_two = Some blocks \<and>
      (\<forall>(a, u, s) \<in> set blocks. unat s mod 8 = 0 \<and> 16 \<le> unat s))"
  using block_sizes [of i_one "{4104}" e_two "{4128, 4104}"] reach_i_one reach_e_two
  by blast

text \<open>
  C2, as stated, fails: the explicit \<^verbatim>\<open>myinit(4096, 25)\<close> returns true and writes the header 17,
  so the only block has its used bit set, and it is the one node of the free list.
\<close>

definition e_odd :: eheap where
  "e_odd = snd (myinit_e 4096 25 zero_eheap)"

theorem free_list_fidelity_counterexample:
  "fst (myinit_e 4096 25 zero_eheap) \<and>
   is_used e_odd 4096 \<and> free_start e_odd = 4096 \<and>
   free_list (free_start e_odd) e_odd = Some [4096] \<and>
   list_all_free (free_start e_odd) e_odd = Some False"
  by (simp add: e_odd_def zero_eheap_def eval_defs eval_loops free_list.simps)

text \<open>
  C2, amended.  In the explicit allocator, in every state reached from a successful \<^verbatim>\<open>myinit\<close>
  on a valid segment (length a multiple of the alignment), the free list reached from
  \<^verbatim>\<open>free_start\<close> ends, holds no node twice, holds only headers of blocks, and a block's used
  bit is 0 if and only if its header is on the list; \<^verbatim>\<open>validate_heap\<close> returns true.
\<close>

theorem free_list_fidelity:
  assumes "reach_e h L"
  shows "\<exists>blocks nodes. dump_heap h = Some blocks \<and> free_list (free_start h) h = Some nodes \<and>
           distinct nodes \<and> set nodes \<subseteq> fst ` set blocks \<and>
           (\<forall>(a, u, s) \<in> set blocks. (\<not> u) = (a \<in> set nodes)) \<and>
           validate_heap_e h = Some True"
proof -
  from assms obtain bs fs where inv: "inv_e h bs fs"
    using reach_e_inv by blast
  then have wf: "wf_blocks 16 h bs"
    and d: "dll (mem h) 0 (free_start h) fs" and dist: "distinct fs"
    and fset: "set fs = {b \<in> set bs. \<not> bused (mem h) b}"
    by (simp_all add: inv_e_def)
  let ?blocks = "map (\<lambda>b. (b, is_used h b, get_size h b)) bs"
  have 1: "dump_heap h = Some ?blocks"
    using wf by (rule wf_blocks_dump)
  have 2: "free_list (free_start h) h = Some fs"
    using d by (rule free_list_dll)
  have 3: "set fs \<subseteq> fst ` set ?blocks"
    using fset by (auto simp add: image_iff)
  have 4: "\<forall>(a, u, s) \<in> set ?blocks. (\<not> u) = (a \<in> set fs)"
    using fset by (auto simp add: is_used_bused)
  from 1 2 3 4 dist validate_heap_e_inv [OF inv] show ?thesis
    by blast
qed

theorem free_list_fidelity_witness:
  "reach_e e_two {4128, 4104} \<and>
   (\<exists>blocks nodes. dump_heap e_two = Some blocks \<and>
      free_list (free_start e_two) e_two = Some nodes \<and>
      distinct nodes \<and> set nodes \<subseteq> fst ` set blocks \<and>
      (\<forall>(a, u, s) \<in> set blocks. (\<not> u) = (a \<in> set nodes)) \<and>
      validate_heap_e e_two = Some True)"
  using free_list_fidelity [OF reach_e_two] reach_e_two by blast

text \<open>
  C6.  In the explicit allocator, in every reachable state, \<^verbatim>\<open>myfree(x)\<close> on a held payload
  \<open>x\<close> returns, and afterwards the block whose header is \<open>x - ALIGNMENT\<close> is a free block of
  the segment whose right neighbour is past the end of the segment or used.
\<close>

theorem right_coalescing_complete:
  assumes "reach_e h L" and "x \<in> L"
  shows "\<exists>h' blocks. myfree_e x h = Some h' \<and> dump_heap h' = Some blocks \<and>
           (get_header x, False, get_size h' (get_header x)) \<in> set blocks \<and>
           (is_past_end h' (get_next_header h' (get_header x)) \<or>
            is_used h' (get_next_header h' (get_header x)))"
proof -
  from assms(1) obtain bs fs where inv: "inv_e h bs fs" and L: "L = live_of (mem h) (set bs)"
    using reach_e_inv by blast
  from assms(2) L have "x \<in> live_of (mem h) (set bs)" by simp
  from myfree_e_inv [OF inv this] obtain h' bs' fs' where
    r: "myfree_e x h = Some h'" "inv_e h' bs' fs'" "get_header x \<in> set bs'"
    "\<not> is_used h' (get_header x)"
    "is_past_end h' (get_next_header h' (get_header x)) \<or>
     is_used h' (get_next_header h' (get_header x))"
    by blast
  from r(2) have "wf_blocks 16 h' bs'"
    by (simp add: inv_e_def)
  then have "dump_heap h' = Some (map (\<lambda>b. (b, is_used h' b, get_size h' b)) bs')"
    by (rule wf_blocks_dump)
  moreover have "(get_header x, False, get_size h' (get_header x))
      \<in> set (map (\<lambda>b. (b, is_used h' b, get_size h' b)) bs')"
    using r(3,4) by (auto simp add: image_iff)
  ultimately show ?thesis
    using r(1,5) by blast
qed

theorem right_coalescing_complete_witness:
  "reach_e e_two {4128, 4104} \<and> (4128 :: addr) \<in> {4128, 4104} \<and>
   (\<exists>h' blocks. myfree_e 4128 e_two = Some h' \<and> dump_heap h' = Some blocks \<and>
      (get_header 4128, False, get_size h' (get_header 4128)) \<in> set blocks \<and>
      (is_past_end h' (get_next_header h' (get_header 4128)) \<or>
       is_used h' (get_next_header h' (get_header 4128))))"
  using right_coalescing_complete [OF reach_e_two, of 4128] reach_e_two by simp




text \<open>
  C10, as stated, fails for the loops that write: the coalescing loops of the explicit \<^verbatim>\<open>myfree\<close>
  and \<^verbatim>\<open>myrealloc\<close> call \<^verbatim>\<open>remove_free\<close>, which stores through the links it reads from the free
  neighbour.  Tiling says nothing about the links.  In the state \<open>bad_links\<close> three blocks of
  size 16 (used, free, free) tile a 72-byte segment, \<^verbatim>\<open>validate_heap\<close>'s walk counts 72, and the
  links of the block at 4120 are 4128 and \<open>2\<^sup>6\<^sup>4 - 8\<close>.  \<^verbatim>\<open>myfree(4104)\<close> unlinks 4120, which
  overwrites the header at 4144 with \<open>2\<^sup>6\<^sup>4 - 8\<close>; from then on \<^verbatim>\<open>get_next_header(4144)\<close> is 4144
  again, the cursor no longer advances, and the loop never ends.
\<close>

definition bad_links :: eheap where
  "bad_links =
     \<lparr>segment_start = 4096, segment_size = 72, nused = 16,
      mem = (\<lambda>a. 0)(4096 := 17, 4120 := 16, 4144 := 16, 4128 := 4128, 4136 := - 8),
      free_start = 0\<rparr>"

definition stuck :: eheap where
  "stuck = merge_step 4096 4144 (merge_step 4096 4120
     (add_free 4096 (set_free 4096 (bad_links\<lparr>nused := nused bad_links - 16\<rparr>))))"

lemma coalesce_stuck:
  assumes "\<not> is_past_end h n" and "\<not> is_used h n"
    and "merge_step b n h = h" and "get_next_header h n = n"
  shows "coalesce b n h = None"
proof (cases "coalesce b n h")
  case None
  then show ?thesis .
next
  case (Some y)
  have "\<not> (b = b \<and> n = n \<and> h = h)"
  proof (rule coalesce.raw_induct
      [where P = "\<lambda>b' n' h' y. \<not> (b' = b \<and> n' = n \<and> h' = h)", OF _ Some])
    fix f header neighbor h1 y1
    assume IH: "\<And>x1 x2 x3 y. f x1 x2 x3 = Some y \<Longrightarrow> \<not> (x1 = b \<and> x2 = n \<and> x3 = h)"
      and body: "(if \<not> is_past_end h1 neighbor \<and> \<not> is_used h1 neighbor
          then let h = remove_free neighbor h1;
                   h = store header (load h header + (get_size h neighbor + ALIGNMENT)) h
               in f header (get_next_header h neighbor) h
          else Some h1) = Some y1"
    show "\<not> (header = b \<and> neighbor = n \<and> h1 = h)"
    proof
      assume "header = b \<and> neighbor = n \<and> h1 = h"
      with body assms have "f b n h = Some y1"
        by (simp add: merge_step_def Let_def)
      from IH [OF this] show False by simp
    qed
  qed
  then show ?thesis by simp
qed

lemma stuck_eq:
  "stuck = \<lparr>segment_start = 4096, segment_size = 72, nused = 0,
     mem = (\<lambda>a. 0)(4120 := 16, 4128 := 4128, 4136 := - 8, 4104 := 0, 4112 := 0,
                    4144 := - 8, 0 := 4128, 4096 := 40),
     free_start = 0\<rparr>"
  by (simp add: stuck_def bad_links_def merge_step_def eval_defs)

theorem header_walk_counterexample:
  "tiled bad_links \<and>
   dump_heap bad_links = Some [(4096, True, 16), (4120, False, 16), (4144, False, 16)] \<and>
   heap_walk 0 (segment_start bad_links) bad_links = Some (segment_size bad_links) \<and>
   myfree_e 4104 bad_links = None"
proof -
  have "tiles (mem bad_links) [4096, 4120, 4144] (unat (segment_start bad_links))
      (seg_end bad_links)"
    by (simp add: bad_links_def bsize_def)
  then have t: "tiled bad_links"
    unfolding tiled_def by (intro conjI exI [of _ "[4096, 4120, 4144]"]) (simp_all add: bad_links_def)
  have d: "dump_heap bad_links = Some [(4096, True, 16), (4120, False, 16), (4144, False, 16)]"
    by (simp add: bad_links_def eval_defs eval_loops)
  have w: "heap_walk 0 (segment_start bad_links) bad_links = Some (segment_size bad_links)"
    by (simp add: bad_links_def eval_defs eval_loops)
  have 1: "myfree_e 4104 bad_links = coalesce 4096 4120
      (add_free 4096 (set_free 4096 (bad_links\<lparr>nused := nused bad_links - 16\<rparr>)))"
    by (simp add: myfree_e_def get_header_def Let_def)
      (simp add: bad_links_def eval_defs)
  have 2: "coalesce 4096 4120
      (add_free 4096 (set_free 4096 (bad_links\<lparr>nused := nused bad_links - 16\<rparr>)))
    = coalesce 4096 4144 (merge_step 4096 4120
      (add_free 4096 (set_free 4096 (bad_links\<lparr>nused := nused bad_links - 16\<rparr>))))"
    by (subst coalesce_unfold) (simp add: bad_links_def merge_step_def eval_defs)
  have 3: "coalesce 4096 4144 (merge_step 4096 4120
      (add_free 4096 (set_free 4096 (bad_links\<lparr>nused := nused bad_links - 16\<rparr>))))
    = coalesce 4096 4144 stuck"
    by (subst coalesce_unfold) (simp add: stuck_def bad_links_def merge_step_def eval_defs)
  have 4: "coalesce 4096 4144 stuck = None"
    by (rule coalesce_stuck) (simp_all add: stuck_eq merge_step_def eval_defs)
  from t d w 1 2 3 4 show ?thesis
    by simp
qed

text \<open>
  C10, amended.  In every state whose blocks tile the segment, the loops that only read (the
  walks of \<^verbatim>\<open>validate_heap\<close> and \<^verbatim>\<open>dump_heap\<close>, and the first-fit scan of the implicit
  \<^verbatim>\<open>mymalloc\<close>) end, and from every block the next header is at least \<open>ALIGNMENT\<close> bytes further.
  The coalescing loops of the explicit \<^verbatim>\<open>myfree\<close> and \<^verbatim>\<open>myrealloc\<close> end in every reachable state
  (where the free list is well-formed too): both functions return.
\<close>

theorem header_walks_terminate:
  "(tiled h \<longrightarrow>
      heap_walk 0 (segment_start h) h = Some (segment_size h) \<and>
      (\<exists>blocks. dump_heap h = Some blocks \<and>
         (\<forall>(a, u, s) \<in> set blocks. unat a + 8 \<le> unat (get_next_header h a)))) \<and>
   (tiled i \<longrightarrow> (\<exists>found. first_fit needed (segment_start i) i = Some found)) \<and>
   (reach_e g L \<and> (x \<in> L \<or> x = NULL) \<longrightarrow>
      (\<exists>g'. myfree_e x g = Some g') \<and> (\<exists>r. myrealloc_e x n g = Some r))"
proof (intro conjI impI)
  assume "tiled h"
  then show "heap_walk 0 (segment_start h) h = Some (segment_size h)"
    "\<exists>blocks. dump_heap h = Some blocks \<and>
       (\<forall>(a, u, s) \<in> set blocks. unat a + 8 \<le> unat (get_next_header h a))"
    by (rule tiled_walks)+
next
  assume "tiled i"
  then show "\<exists>found. first_fit needed (segment_start i) i = Some found"
    by (rule tiled_first_fit)
next
  assume a: "reach_e g L \<and> (x \<in> L \<or> x = NULL)"
  then obtain bs fs where inv: "inv_e g bs fs" and L: "L = live_of (mem g) (set bs)"
    using reach_e_inv by blast
  from a L have x: "x \<in> live_of (mem g) (set bs) \<or> x = NULL"
    by simp
  show "\<exists>g'. myfree_e x g = Some g'"
  proof (cases "x = NULL")
    case True
    then show ?thesis by (simp add: myfree_e_null)
  next
    case False
    with x myfree_e_inv [OF inv, of x] show ?thesis by blast
  qed
  from myrealloc_e_inv [OF inv x, of n] show "\<exists>r. myrealloc_e x n g = Some r"
    by blast
qed

theorem header_walks_terminate_witness:
  "tiled e_two \<and>
   heap_walk 0 (segment_start e_two) e_two = Some (segment_size e_two) \<and>
   (\<exists>blocks. dump_heap e_two = Some blocks \<and>
      (\<forall>(a, u, s) \<in> set blocks. unat a + 8 \<le> unat (get_next_header e_two a))) \<and>
   tiled i_one \<and> (\<exists>found. first_fit 16 (segment_start i_one) i_one = Some found) \<and>
   reach_e e_two {4128, 4104} \<and> (4128 :: addr) \<in> {4128, 4104} \<and>
   (\<exists>g'. myfree_e 4128 e_two = Some g') \<and> (\<exists>r. myrealloc_e 4128 40 e_two = Some r)"
proof -
  from reach_e_inv [OF reach_e_two] have te: "tiled e_two"
    unfolding inv_e_def using wf_blocks_tiled by blast
  from reach_i_inv [OF reach_i_one] have ti: "tiled i_one"
    using wf_blocks_tiled by blast
  from header_walks_terminate [of e_two i_one 16 e_two "{4128, 4104}" 4128 40] te ti reach_e_two
  show ?thesis
    by simp
qed

end
